theory Spec2Isabelle
  imports Complex_Main "HOL-Library.Multiset"
begin

section \<open>The listing scanner and the preference store of gifts-bot\<close>

text \<open>
  The scanner (the module that holds \<open>handleTrace\<close>, \<open>matchesFilters\<close>, \<open>toTon\<close> and the
  payload extractors) and the backend (\<open>normalizeFilters\<close>, \<open>PUT /api/filters\<close>) are
  embedded function by function.  Strings are \<open>char list\<close>: \<open>toLowerCase\<close> and \<open>trim\<close>
  are modelled on ASCII (the letters \<open>A\<close> to \<open>Z\<close>; tab, line feed, vertical tab, form
  feed, carriage return and space), and every character the code tests for is ASCII.
  Time stamps (\<open>Date.now()\<close>) are integers.  A function that can throw returns a sum,
  \<open>Inl\<close> the error; the answers of the network are arguments.
\<close>

subsection \<open>Markdown escaping\<close>

text \<open>
  \<open>escapeMarkdownV2\<close> is \<open>s.replaceAll(/([_\-*\[\]()~`>#+=|{}.!\\])/g, '\\$1')\<close>: the pattern is
  one character class, so the global replace scans the string once, left to right, and
  puts a backslash before each character of the class.
\<close>

definition backslash :: char where
  "backslash = CHR 0x5C"

definition markdownV2_reserved :: "char list" where
  "markdownV2_reserved =
     ''_-*[]()~'' @ [CHR 0x60] @ ''>#+=|{}.!'' @ [backslash]"

fun escapeMarkdownV2 :: "string \<Rightarrow> string" where
  "escapeMarkdownV2 [] = []"
| "escapeMarkdownV2 (c # cs) =
     (if c \<in> set markdownV2_reserved then backslash # c # escapeMarkdownV2 cs
      else c # escapeMarkdownV2 cs)"

text \<open>
  The inverse the specification describes: drop the escape backslash in front of every
  reserved character.
\<close>

fun stripEscapes :: "string \<Rightarrow> string" where
  "stripEscapes (a # b # cs) =
     (if a = backslash \<and> b \<in> set markdownV2_reserved then b # stripEscapes cs
      else a # stripEscapes (b # cs))"
| "stripEscapes cs = cs"

subsection \<open>The seen-event map\<close>

text \<open>
  \<open>seen\<close> is a JavaScript \<open>Map<string, number>\<close>: its entries are kept in insertion order
  and its keys are distinct.  It is an association list, oldest entry first.
\<close>

type_synonym seen_map = "(string \<times> int) list"

definition SEEN_TTL_MS :: int where
  "SEEN_TTL_MS = 10 * 60 * 1000"

definition SEEN_MAX :: nat where
  "SEEN_MAX = 10000"

definition seen_has :: "string \<Rightarrow> seen_map \<Rightarrow> bool" where
  "seen_has k m = (k \<in> set (map fst m))"

definition seen_delete :: "string \<Rightarrow> seen_map \<Rightarrow> seen_map" where
  "seen_delete k m = filter (\<lambda>e. fst e \<noteq> k) m"

fun seen_set :: "string \<Rightarrow> int \<Rightarrow> seen_map \<Rightarrow> seen_map" where
  "seen_set k v [] = [(k, v)]"
| "seen_set k v (e # m) = (if fst e = k then (k, v) # m else e # seen_set k v m)"

text \<open>
  The first loop of \<open>cleanupSeen\<close>, \<open>for (const [k, ts] of seen) if (now - ts > SEEN_TTL_MS)
  seen.delete(k)\<close>: it visits the entries in order and deletes from the live map.
\<close>

fun cleanupSeen_ttl :: "int \<Rightarrow> seen_map \<Rightarrow> seen_map \<Rightarrow> seen_map" where
  "cleanupSeen_ttl now [] m = m"
| "cleanupSeen_ttl now (e # es) m =
     cleanupSeen_ttl now es (if now - snd e > SEEN_TTL_MS then seen_delete (fst e) m else m)"

text \<open>
  The second loop, \<open>for (const k of seen.keys()) { seen.delete(k); i++; if (i >= extra) break; }\<close>.
\<close>

fun cleanupSeen_evict :: "nat \<Rightarrow> nat \<Rightarrow> string list \<Rightarrow> seen_map \<Rightarrow> seen_map" where
  "cleanupSeen_evict i extra [] m = m"
| "cleanupSeen_evict i extra (k # ks) m =
     (if Suc i \<ge> extra then seen_delete k m
      else cleanupSeen_evict (Suc i) extra ks (seen_delete k m))"

definition cleanupSeen :: "int \<Rightarrow> seen_map \<Rightarrow> seen_map" where
  "cleanupSeen now m =
     (let m1 = cleanupSeen_ttl now m m
      in if length m1 \<le> SEEN_MAX then m1
         else cleanupSeen_evict 0 (length m1 - SEEN_MAX) (map fst m1) m1)"

text \<open>
  The head of \<open>handleTrace\<close>: sweep, then \<open>if (seen.has(p.hash)) return; seen.set(p.hash, now)\<close>.
  Everything after it (event fetch, extraction, dispatch) runs only on \<open>Processed\<close>.
\<close>

datatype verdict = Dropped | Processed

definition handleTrace_gate :: "int \<Rightarrow> string \<Rightarrow> seen_map \<Rightarrow> verdict \<times> seen_map" where
  "handleTrace_gate now hash m =
     (let m1 = cleanupSeen now m
      in if seen_has hash m1 then (Dropped, m1) else (Processed, seen_set hash now m1))"

text \<open>A sequence of trace deliveries \<open>(now, hash)\<close>, and the verdict of each.\<close>

fun deliveries :: "seen_map \<Rightarrow> (int \<times> string) list \<Rightarrow> verdict list" where
  "deliveries m [] = []"
| "deliveries m (d # ds) =
     fst (handleTrace_gate (fst d) (snd d) m) # deliveries (snd (handleTrace_gate (fst d) (snd d) m)) ds"

text \<open>
  The window of a hash: at each later delivery the sweep leaves the entry of the hash in
  the map (it has neither aged out nor been evicted for capacity).
\<close>

fun retained :: "string \<Rightarrow> seen_map \<Rightarrow> (int \<times> string) list \<Rightarrow> bool" where
  "retained h m [] = True"
| "retained h m (d # ds) =
     (seen_has h (cleanupSeen (fst d) m) \<and> retained h (snd (handleTrace_gate (fst d) (snd d) m)) ds)"

subsection \<open>JavaScript values\<close>

text \<open>
  A \<open>number\<close> is a finite value, an infinity or \<open>NaN\<close>.  Finite values are reals: the
  comparisons and the thresholds of the code are modelled, the rounding of IEEE doubles
  (and the overflow of a huge literal to \<open>Infinity\<close>) is not.
\<close>

datatype jsnum = Fin real | PosInf | NegInf | NaN

fun isFinite :: "jsnum \<Rightarrow> bool" where
  "isFinite (Fin r) = True"
| "isFinite v = False"

fun js_lt :: "jsnum \<Rightarrow> jsnum \<Rightarrow> bool" where
  "js_lt (Fin a) (Fin b) = (a < b)"
| "js_lt (Fin a) PosInf = True"
| "js_lt NegInf (Fin b) = True"
| "js_lt NegInf PosInf = True"
| "js_lt a b = False"

definition js_gt :: "jsnum \<Rightarrow> jsnum \<Rightarrow> bool" where
  "js_gt a b = js_lt b a"

fun js_le :: "jsnum \<Rightarrow> jsnum \<Rightarrow> bool" where
  "js_le NaN b = False"
| "js_le a NaN = False"
| "js_le a b = (a = b \<or> js_lt a b)"

text \<open>Division by the positive constant \<open>1e9\<close>.\<close>

fun div_1e9 :: "jsnum \<Rightarrow> jsnum" where
  "div_1e9 (Fin r) = Fin (r / 1000000000)"
| "div_1e9 v = v"

text \<open>
  A value of type \<open>unknown\<close>: what \<open>JSON.parse\<close> returns, or \<open>undefined\<close>.  An object lists
  its properties in enumeration order, with distinct names.
\<close>

datatype jsval =
    Undefined
  | Null
  | Bool bool
  | Num jsnum
  | Str string
  | Arr "jsval list"
  | Obj "(string \<times> jsval) list"

datatype js_error = TypeError | RangeError | FetchError | Error string

text \<open>Sequencing of computations that may throw: the first error ends the computation.\<close>

definition bindE :: "js_error + 'a \<Rightarrow> ('a \<Rightarrow> js_error + 'b) \<Rightarrow> js_error + 'b" where
  "bindE m f = (case m of Inl e \<Rightarrow> Inl e | Inr x \<Rightarrow> f x)"

fun truthy :: "jsval \<Rightarrow> bool" where
  "truthy Undefined = False"
| "truthy Null = False"
| "truthy (Bool b) = b"
| "truthy (Num (Fin r)) = (r \<noteq> 0)"
| "truthy (Num NaN) = False"
| "truthy (Num v) = True"
| "truthy (Str s) = (s \<noteq> [])"
| "truthy v = True"

fun typeof :: "jsval \<Rightarrow> string" where
  "typeof Undefined = ''undefined''"
| "typeof Null = ''object''"
| "typeof (Bool b) = ''boolean''"
| "typeof (Num n) = ''number''"
| "typeof (Str s) = ''string''"
| "typeof v = ''object''"

fun isArray :: "jsval \<Rightarrow> bool" where
  "isArray (Arr vs) = True"
| "isArray v = False"

text \<open>
  The operations of the language that can throw.  Reading a property of \<open>null\<close> or
  \<open>undefined\<close>, \<open>key in v\<close> on a primitive, \<open>for ... of\<close> over a value that is not
  iterable and \<open>Object.values\<close>/\<open>Object.entries\<close> of \<open>null\<close> or \<open>undefined\<close> throw a
  \<open>TypeError\<close>.  Property names are the names of the payload: the members that every
  object or array inherits (\<open>length\<close>, \<open>toString\<close>, ...) and array indices are not read by
  name anywhere in the program.
\<close>

fun get :: "jsval \<Rightarrow> string \<Rightarrow> js_error + jsval" where
  "get Undefined k = Inl TypeError"
| "get Null k = Inl TypeError"
| "get (Obj kvs) k = Inr (case map_of kvs k of Some v \<Rightarrow> v | None \<Rightarrow> Undefined)"
| "get v k = Inr Undefined"

fun has_in :: "string \<Rightarrow> jsval \<Rightarrow> js_error + bool" where
  "has_in k (Obj kvs) = Inr (k \<in> set (map fst kvs))"
| "has_in k (Arr vs) = Inr False"
| "has_in k v = Inl TypeError"

fun for_of :: "jsval \<Rightarrow> js_error + jsval list" where
  "for_of (Arr vs) = Inr vs"
| "for_of (Str s) = Inr (map (\<lambda>c. Str [c]) s)"
| "for_of v = Inl TypeError"

text \<open>The property name of an array index: its decimal digits.\<close>

fun index_key :: "nat \<Rightarrow> string" where
  "index_key n =
     (if n < 10 then [''0123456789'' ! n]
      else index_key (n div 10) @ [''0123456789'' ! (n mod 10)])"

fun Object_entries :: "jsval \<Rightarrow> js_error + (string \<times> jsval) list" where
  "Object_entries Undefined = Inl TypeError"
| "Object_entries Null = Inl TypeError"
| "Object_entries (Obj kvs) = Inr kvs"
| "Object_entries (Arr vs) = Inr (zip (map index_key [0..<length vs]) vs)"
| "Object_entries (Str s) = Inr (zip (map index_key [0..<length s]) (map (\<lambda>c. Str [c]) s))"
| "Object_entries v = Inr []"

definition Object_values :: "jsval \<Rightarrow> js_error + jsval list" where
  "Object_values v = bindE (Object_entries v) (\<lambda>kvs. Inr (map snd kvs))"

subsection \<open>Strings\<close>

definition toLowerCase_char :: "char \<Rightarrow> char" where
  "toLowerCase_char c =
     (case map_of (zip ''ABCDEFGHIJKLMNOPQRSTUVWXYZ'' ''abcdefghijklmnopqrstuvwxyz'') c of
        Some l \<Rightarrow> l
      | None \<Rightarrow> c)"

definition toLowerCase :: "string \<Rightarrow> string" where
  "toLowerCase s = map toLowerCase_char s"

definition startsWith :: "string \<Rightarrow> string \<Rightarrow> bool" where
  "startsWith s p = (take (length p) s = p)"

definition str_includes :: "string \<Rightarrow> string \<Rightarrow> bool" where
  "str_includes s sub = list_ex (\<lambda>i. take (length sub) (drop i s) = sub) [0..<Suc (length s)]"

definition is_ws :: "char \<Rightarrow> bool" where
  "is_ws c = (c \<in> set [CHR 0x09, CHR 0x0A, CHR 0x0B, CHR 0x0C, CHR 0x0D, CHR 0x20])"

definition trim :: "string \<Rightarrow> string" where
  "trim s = rev (dropWhile is_ws (rev (dropWhile is_ws s)))"


text \<open>
  \<open>Number(s)\<close> on a string: white space is trimmed, the empty string is \<open>0\<close>, then a
  binary, octal or hexadecimal integer, or a signed decimal literal or \<open>Infinity\<close>;
  anything else is \<open>NaN\<close>.
\<close>

definition digit_in_base :: "nat \<Rightarrow> char \<Rightarrow> nat option" where
  "digit_in_base b c =
     (case map_of (zip ''0123456789abcdef'' [0, 1, 2, 3, 4, 5, 6, 7, 8, 9, 10, 11, 12, 13, 14, 15]) (toLowerCase_char c) of
        None \<Rightarrow> None
      | Some v \<Rightarrow> if v < b then Some v else None)"

definition parse_digits :: "nat \<Rightarrow> string \<Rightarrow> nat option" where
  "parse_digits b s =
     (if s = [] \<or> \<not> list_all (\<lambda>c. digit_in_base b c \<noteq> None) s then None
      else Some (foldl (\<lambda>a c. a * b + the (digit_in_base b c)) 0 s))"

definition is_digit :: "char \<Rightarrow> bool" where
  "is_digit c = (digit_in_base 10 c \<noteq> None)"

definition exponent_part :: "string \<Rightarrow> int option" where
  "exponent_part r =
     (case r of
        [] \<Rightarrow> Some 0
      | c # ds \<Rightarrow>
          if c = CHR ''e'' \<or> c = CHR ''E'' then
            (case ds of
               [] \<Rightarrow> None
             | d # ds' \<Rightarrow>
                 if d = CHR ''+'' then map_option int (parse_digits 10 ds')
                 else if d = CHR ''-'' then map_option (\<lambda>n. - int n) (parse_digits 10 ds')
                 else map_option int (parse_digits 10 ds))
          else None)"

definition unsigned_decimal :: "string \<Rightarrow> real option" where
  "unsigned_decimal u =
     (let ip = takeWhile is_digit u;
          r1 = dropWhile is_digit u;
          has_dot = (r1 \<noteq> [] \<and> hd r1 = CHR ''.'');
          fp = (if has_dot then takeWhile is_digit (tl r1) else []);
          r2 = (if has_dot then dropWhile is_digit (tl r1) else r1)
      in if ip = [] \<and> fp = [] then None
         else (case exponent_part r2 of
                 None \<Rightarrow> None
               | Some e \<Rightarrow>
                   Some ((of_nat (foldl (\<lambda>a c. a * 10 + the (digit_in_base 10 c)) 0 ip)
                          + of_nat (foldl (\<lambda>a c. a * 10 + the (digit_in_base 10 c)) 0 fp)
                            / 10 ^ length fp)
                         * (if e \<ge> 0 then 10 ^ nat e else 1 / 10 ^ nat (- e)))))"

definition Number_string :: "string \<Rightarrow> jsnum" where
  "Number_string s =
     (let t = trim s
      in if t = [] then Fin 0
         else if startsWith (toLowerCase (take 2 t)) ''0x'' then
           (case parse_digits 16 (drop 2 t) of None \<Rightarrow> NaN | Some n \<Rightarrow> Fin (of_nat n))
         else if startsWith (toLowerCase (take 2 t)) ''0o'' then
           (case parse_digits 8 (drop 2 t) of None \<Rightarrow> NaN | Some n \<Rightarrow> Fin (of_nat n))
         else if startsWith (toLowerCase (take 2 t)) ''0b'' then
           (case parse_digits 2 (drop 2 t) of None \<Rightarrow> NaN | Some n \<Rightarrow> Fin (of_nat n))
         else
           (let neg = (hd t = CHR ''-'');
                u = (if hd t = CHR ''-'' \<or> hd t = CHR ''+'' then tl t else t)
            in if u = ''Infinity'' then (if neg then NegInf else PosInf)
               else (case unsigned_decimal u of
                       None \<Rightarrow> NaN
                     | Some r \<Rightarrow> Fin (if neg then - r else r))))"

subsection \<open>Amount normalization\<close>

fun toTon :: "jsval \<Rightarrow> js_error + jsnum option" where
  "toTon (Num v) =
     (if isFinite v then
        (if js_gt v (Fin 1000000) then Inr (Some (div_1e9 v)) else Inr (Some v))
      else Inr None)"
| "toTon (Str s) =
     (let num = Number_string s
      in if \<not> isFinite num then Inr None
         else if js_gt num (Fin 1000000) then Inr (Some (div_1e9 num))
         else Inr (Some num))"
| "toTon (Obj kvs) =
     bindE (get (Obj kvs) ''value'')
       (\<lambda>x. case x of Str s \<Rightarrow> toTon (Str s) | Num n \<Rightarrow> toTon (Num n) | _ \<Rightarrow> Inr None)"
| "toTon (Arr vs) =
     bindE (get (Arr vs) ''value'')
       (\<lambda>x. case x of Str s \<Rightarrow> toTon (Str s) | Num n \<Rightarrow> toTon (Num n) | _ \<Rightarrow> Inr None)"
| "toTon v = Inr None"

definition toTonMaybe :: "jsnum \<Rightarrow> jsnum" where
  "toTonMaybe v =
     (if \<not> isFinite v then v
      else if js_gt v (Fin 1000000) then div_1e9 v
      else v)"

text \<open>\<open>toTon\<close> applied to its own result (a number, or \<open>undefined\<close>).\<close>

definition toTon_twice :: "jsval \<Rightarrow> js_error + jsnum option" where
  "toTon_twice v =
     bindE (toTon v) (\<lambda>r. case r of None \<Rightarrow> toTon Undefined | Some n \<Rightarrow> toTon (Num n))"

subsection \<open>The preference matcher\<close>

record Listing =
  nftAddress :: string
  priceTon :: "jsnum option"
  marketAccount :: "string option"
  marketLabel :: string
  model :: "string option"
  background :: "string option"
  number :: "string option"
  collectionAddress :: "string option"
  imageUrl :: "string option"

record Filters =
  tab :: string
  minTon :: jsnum
  maxTon :: jsnum
  models :: "string list"

definition matchesFilters :: "Listing \<Rightarrow> Filters option \<Rightarrow> bool" where
  "matchesFilters listing filters =
     (case filters of
        None \<Rightarrow> True
      | Some f \<Rightarrow>
          if tab f \<noteq> ''listing'' then False
          else (case priceTon listing of
                  None \<Rightarrow> False
                | Some price \<Rightarrow>
                    if \<not> isFinite price then False
                    else if isFinite (minTon f) \<and> js_lt price (minTon f) then False
                    else if isFinite (maxTon f) \<and> js_gt price (maxTon f) then False
                    else if length (models f) > 0 then
                      (case model listing of
                         None \<Rightarrow> False
                       | Some m \<Rightarrow>
                           if m = [] then False
                           else if toLowerCase m \<notin> set (map toLowerCase (models f)) then False
                           else True)
                    else True))"

text \<open>
  The matcher as the specification words it: the mode is \<open>listing\<close>, the price is a finite
  \<open>p\<close> with \<open>minTon <= p <= maxTon\<close>, and the model set is empty or holds the listing's
  model, compared without case.
\<close>

definition matches_as_specified :: "Listing \<Rightarrow> Filters \<Rightarrow> bool" where
  "matches_as_specified listing f =
     (tab f = ''listing''
      \<and> (case priceTon listing of
            None \<Rightarrow> False
          | Some p \<Rightarrow> isFinite p \<and> js_le (minTon f) p \<and> js_le p (maxTon f))
      \<and> (models f = []
          \<or> (case model listing of
                None \<Rightarrow> False
              | Some m \<Rightarrow> toLowerCase m \<in> set (map toLowerCase (models f)))))"

subsection \<open>Outbound calls\<close>

text \<open>
  What a \<open>fetch\<close> does is the environment's choice: it rejects, or it answers with a
  response whose \<open>ok\<close> flag is set or not and whose body \<open>res.json()\<close> can read
  (\<open>Some\<close>) or not (\<open>None\<close>).
\<close>

datatype http_result = FetchThrows | Response bool "jsval option"

text \<open>
  The three read calls share one body: \<open>try { res = await fetch(url); if (!res.ok) return
  null; return await res.json() } catch { return null }\<close>.
\<close>

definition tonapiGetEvent :: "http_result \<Rightarrow> jsval" where
  "tonapiGetEvent r =
     (case r of
        FetchThrows \<Rightarrow> Null
      | Response ok body \<Rightarrow>
          if \<not> ok then Null else (case body of None \<Rightarrow> Null | Some j \<Rightarrow> j))"

definition tonapiGetNftItemByAddress :: "http_result \<Rightarrow> jsval" where
  "tonapiGetNftItemByAddress r =
     (case r of
        FetchThrows \<Rightarrow> Null
      | Response ok body \<Rightarrow>
          if \<not> ok then Null else (case body of None \<Rightarrow> Null | Some j \<Rightarrow> j))"

definition tonapiGetAccountEvents :: "http_result \<Rightarrow> jsval" where
  "tonapiGetAccountEvents r =
     (case r of
        FetchThrows \<Rightarrow> Null
      | Response ok body \<Rightarrow>
          if \<not> ok then Null else (case body of None \<Rightarrow> Null | Some j \<Rightarrow> j))"

subsection \<open>The alert dispatcher\<close>

record alert_opts =
  caption :: string
  photoUrl :: "string option"
  buyUrl :: string
  buyButtonText :: string
  openInTelegramUrl :: string

datatype telegram_call = SendPhoto | SendMessage

text \<open>A send fails when the \<open>fetch\<close> rejects or the response is not \<open>ok\<close>.\<close>

definition send_failed :: "http_result \<Rightarrow> bool" where
  "send_failed r = (case r of FetchThrows \<Rightarrow> True | Response ok body \<Rightarrow> \<not> ok)"

text \<open>The body of the \<open>try\<close> block of the photo branch.\<close>

definition sendPhoto_try :: "http_result \<Rightarrow> js_error + unit" where
  "sendPhoto_try r =
     (case r of
        FetchThrows \<Rightarrow> Inl FetchError
      | Response ok body \<Rightarrow>
          if \<not> ok then Inl (Error ''Telegram sendPhoto failed'') else Inr ())"

text \<open>
  \<open>sendTelegramAlert\<close>, given what the two Telegram calls would answer; it returns its
  outcome (\<open>Inl\<close>: the promise rejects) and the calls it made, in order.
\<close>

definition sendTelegramAlert ::
  "alert_opts \<Rightarrow> http_result \<Rightarrow> http_result \<Rightarrow> (js_error + unit) \<times> telegram_call list" where
  "sendTelegramAlert opts photo_res text_res =
     (let has_photo = (case photoUrl opts of None \<Rightarrow> False | Some u \<Rightarrow> u \<noteq> [])
      in if has_photo \<and> sendPhoto_try photo_res = Inr () then (Inr (), [SendPhoto])
         else
           (let calls = (if has_photo then [SendPhoto] else [])
            in case text_res of
                 FetchThrows \<Rightarrow> (Inl FetchError, calls @ [SendMessage])
               | Response ok body \<Rightarrow>
                   if \<not> ok then (Inl (Error ''Telegram sendMessage failed''), calls @ [SendMessage])
                   else (Inr (), calls @ [SendMessage])))"

subsection \<open>The per-asset model cache\<close>

text \<open>The \<open>??\<close> operator: the right operand is evaluated only for \<open>null\<close> and \<open>undefined\<close>.\<close>

definition nullish :: "jsval \<Rightarrow> (js_error + jsval) \<Rightarrow> js_error + jsval" where
  "nullish a b = (if a = Undefined \<or> a = Null then b else Inr a)"

definition falsy_string :: "string option \<Rightarrow> bool" where
  "falsy_string s = (case s of None \<Rightarrow> True | Some t \<Rightarrow> t = [])"

text \<open>
  The \<open>model\<close> field of \<open>extractFromNftItem\<close>.  The statements that fill the other fields
  (\<open>collectionAddress\<close>, \<open>number\<close>, \<open>imageUrl\<close>, \<open>background\<close>) do not write \<open>res.model\<close> and
  are left out.  First the loop over \<open>metadata.attributes\<close>.
\<close>

fun extractFromNftItem_attrs :: "jsval list \<Rightarrow> string option \<Rightarrow> js_error + string option" where
  "extractFromNftItem_attrs [] res = Inr res"
| "extractFromNftItem_attrs (a # as) res =
     (if \<not> truthy a \<or> typeof a \<noteq> ''object'' then extractFromNftItem_attrs as res
      else
        bindE (get a ''trait_type'') (\<lambda>t1.
        bindE (nullish t1 (get a ''key'')) (\<lambda>t2.
        bindE (nullish t2 (get a ''type'')) (\<lambda>trait.
        bindE (get a ''value'') (\<lambda>v1.
        bindE (nullish v1 (get a ''val'')) (\<lambda>val.
          case trait of
            Str tr \<Rightarrow>
              (let t = toLowerCase tr
               in case val of
                    Str v \<Rightarrow>
                      if falsy_string res \<and> (t = ''model'' \<or> str_includes t ''model'')
                      then extractFromNftItem_attrs as (Some v)
                      else extractFromNftItem_attrs as res
                  | _ \<Rightarrow> extractFromNftItem_attrs as res)
          | _ \<Rightarrow> extractFromNftItem_attrs as res))))))"

definition extractFromNftItem_model :: "jsval \<Rightarrow> js_error + string option" where
  "extractFromNftItem_model nft =
     (if \<not> truthy nft \<or> typeof nft \<noteq> ''object'' then Inr None
      else
        bindE (get nft ''metadata'') (\<lambda>m1.
        bindE (nullish m1 (get nft ''content'')) (\<lambda>metadata.
          if truthy metadata \<and> typeof metadata = ''object'' then
            bindE (get metadata ''name'') (\<lambda>name.
            bindE (get metadata ''attributes'') (\<lambda>attrs.
              let res = (case name of Str s \<Rightarrow> Some s | _ \<Rightarrow> None)
              in if isArray attrs then bindE (for_of attrs) (\<lambda>as. extractFromNftItem_attrs as res)
                 else Inr res))
          else Inr None)))"

record model_entry =
  entry_at :: int
  entry_model :: "string option"

type_synonym nft_model_cache = "string \<Rightarrow> model_entry option"

definition NFT_MODEL_CACHE_TTL_MS :: int where
  "NFT_MODEL_CACHE_TTL_MS = 10 * 60 * 1000"

text \<open>
  \<open>getModelByNftAddressCached\<close> at time \<open>now\<close>, where \<open>nfts\<close> is what the metadata endpoint
  answers for each asset; it returns the model and the cache it leaves.
\<close>

definition getModelByNftAddressCached ::
  "int \<Rightarrow> (string \<Rightarrow> http_result) \<Rightarrow> string \<Rightarrow> nft_model_cache
     \<Rightarrow> (js_error + string option) \<times> nft_model_cache" where
  "getModelByNftAddressCached now nfts addr cache =
     (if (case cache addr of None \<Rightarrow> False
          | Some cached \<Rightarrow> now - entry_at cached < NFT_MODEL_CACHE_TTL_MS)
      then (Inr (entry_model (the (cache addr))), cache)
      else
        (let nft = tonapiGetNftItemByAddress (nfts addr)
         in case extractFromNftItem_model nft of
              Inl e \<Rightarrow> (Inl e, cache)
            | Inr extracted_model \<Rightarrow>
                (Inr extracted_model,
                 cache(addr \<mapsto> \<lparr>entry_at = now, entry_model = extracted_model\<rparr>))))"

text \<open>The lookup failed: \<open>tonapiGetNftItemByAddress\<close> caught it and returned \<open>null\<close>.\<close>

definition lookup_failed :: "http_result \<Rightarrow> bool" where
  "lookup_failed r =
     (case r of FetchThrows \<Rightarrow> True | Response ok body \<Rightarrow> \<not> ok \<or> body = None)"

subsection \<open>The payload extractors\<close>

text \<open>
  The extractors walk a payload of any shape.  They are written with the operations that
  can throw, under the guards the code puts before them; the recursion through arrays and
  through \<open>Object.values\<close> is the auxiliary loop function of each extractor.
\<close>

lemma bindE_cong [fundef_cong]:
  "m = m' \<Longrightarrow> (\<And>x. m' = Inr x \<Longrightarrow> f x = f' x) \<Longrightarrow> bindE m f = bindE m' f'"
  by (cases m') (simp_all add: bindE_def)

lemma for_of_smaller:
  "isArray node \<Longrightarrow> for_of node = Inr vs \<Longrightarrow> size_list size vs < size node"
  by (cases node) auto

lemma size_values_le:
  "size_list (size \<circ> snd) kvs \<le> size_list (size_prod (\<lambda>k. 0) size) kvs"
  by (induction kvs) auto

lemma Object_entries_smaller:
  "truthy node \<Longrightarrow> \<not> isArray node \<Longrightarrow> typeof node = ''object'' \<Longrightarrow>
   Object_entries node = Inr kvs \<Longrightarrow> size_list (size_prod (\<lambda>k. 0) size) kvs < size node"
  by (cases node) auto

lemma Object_values_smaller:
  "truthy node \<Longrightarrow> \<not> isArray node \<Longrightarrow> typeof node = ''object'' \<Longrightarrow>
   Object_values node = Inr vs \<Longrightarrow> size_list size vs < size node"
  by (cases node) (auto simp: Object_values_def bindE_def le_imp_less_Suc size_values_le)

definition the_string :: "jsval \<Rightarrow> string" where
  "the_string v = (case v of Str s \<Rightarrow> s | _ \<Rightarrow> [])"

fun findFirstStringByKeys_direct :: "jsval \<Rightarrow> string list \<Rightarrow> js_error + string option" where
  "findFirstStringByKeys_direct obj [] = Inr None"
| "findFirstStringByKeys_direct obj (key # keys) =
     bindE (get obj key) (\<lambda>v.
       if typeof v = ''string'' then Inr (Some (the_string v))
       else findFirstStringByKeys_direct obj keys)"

function findFirstStringByKeys :: "jsval \<Rightarrow> string list \<Rightarrow> js_error + string option"
  and findFirstStringByKeys_loop :: "jsval list \<Rightarrow> string list \<Rightarrow> js_error + string option"
where
  "findFirstStringByKeys node keys =
     (if \<not> truthy node then Inr None
      else if isArray node then
        bindE (for_of node) (\<lambda>vs. findFirstStringByKeys_loop vs keys)
      else if typeof node \<noteq> ''object'' then Inr None
      else
        bindE (findFirstStringByKeys_direct node keys) (\<lambda>direct.
          case direct of
            Some s \<Rightarrow> Inr (Some s)
          | None \<Rightarrow> bindE (Object_values node) (\<lambda>vs. findFirstStringByKeys_loop vs keys)))"
| "findFirstStringByKeys_loop [] keys = Inr None"
| "findFirstStringByKeys_loop (v # vs) keys =
     bindE (findFirstStringByKeys v keys) (\<lambda>found.
       if \<not> falsy_string found then Inr found else findFirstStringByKeys_loop vs keys)"
  by pat_completeness auto
termination
  by (relation "measure (\<lambda>x. case x of Inl (node, keys) \<Rightarrow> size node
                                | Inr (vs, keys) \<Rightarrow> size_list size vs)")
     (auto simp: for_of_smaller Object_values_smaller)

fun findFirstNumberLike_direct :: "jsval \<Rightarrow> string list \<Rightarrow> js_error + jsnum option" where
  "findFirstNumberLike_direct obj [] = Inr None"
| "findFirstNumberLike_direct obj (key # keys) =
     bindE (has_in key obj) (\<lambda>present.
       if present then
         bindE (get obj key) (\<lambda>v.
         bindE (toTon v) (\<lambda>t.
           case t of Some n \<Rightarrow> Inr (Some n) | None \<Rightarrow> findFirstNumberLike_direct obj keys))
       else findFirstNumberLike_direct obj keys)"

function findFirstNumberLike :: "jsval \<Rightarrow> string list \<Rightarrow> js_error + jsnum option"
  and findFirstNumberLike_loop :: "jsval list \<Rightarrow> string list \<Rightarrow> js_error + jsnum option"
where
  "findFirstNumberLike node keys =
     (if \<not> truthy node then Inr None
      else if isArray node then
        bindE (for_of node) (\<lambda>vs. findFirstNumberLike_loop vs keys)
      else if typeof node \<noteq> ''object'' then Inr None
      else
        bindE (findFirstNumberLike_direct node keys) (\<lambda>direct.
          case direct of
            Some n \<Rightarrow> Inr (Some n)
          | None \<Rightarrow> bindE (Object_values node) (\<lambda>vs. findFirstNumberLike_loop vs keys)))"
| "findFirstNumberLike_loop [] keys = Inr None"
| "findFirstNumberLike_loop (v # vs) keys =
     bindE (findFirstNumberLike v keys) (\<lambda>found.
       if found \<noteq> None then Inr found else findFirstNumberLike_loop vs keys)"
  by pat_completeness auto
termination
  by (relation "measure (\<lambda>x. case x of Inl (node, keys) \<Rightarrow> size node
                                | Inr (vs, keys) \<Rightarrow> size_list size vs)")
     (auto simp: for_of_smaller Object_values_smaller)

fun isTonAddress :: "jsval \<Rightarrow> bool" where
  "isTonAddress (Str v) =
     (if startsWith v ''0:'' \<or> startsWith v ''-1:'' then True
      else if startsWith v ''EQ'' \<or> startsWith v ''UQ'' \<or> startsWith v ''kQ'' then True
      else False)"
| "isTonAddress v = False"

definition extractAddressFromNode :: "jsval \<Rightarrow> js_error + string option" where
  "extractAddressFromNode node =
     (if \<not> truthy node then Inr None
      else if typeof node = ''string'' then
        Inr (if isTonAddress node then Some (the_string node) else None)
      else if typeof node \<noteq> ''object'' then Inr None
      else
        bindE (get node ''address'') (\<lambda>address.
          if isTonAddress address then Inr (Some (the_string address))
          else
            bindE (get node ''account_id'') (\<lambda>account_id.
              if isTonAddress account_id then Inr (Some (the_string account_id))
              else
                bindE (get node ''owner'') (\<lambda>owner.
                  if isTonAddress owner then Inr (Some (the_string owner))
                  else Inr None))))"

fun findFirstAddressByKeys_direct :: "jsval \<Rightarrow> string list \<Rightarrow> js_error + string option" where
  "findFirstAddressByKeys_direct obj [] = Inr None"
| "findFirstAddressByKeys_direct obj (key # keys) =
     bindE (has_in key obj) (\<lambda>present.
       if present then
         bindE (get obj key) (\<lambda>v.
         bindE (extractAddressFromNode v) (\<lambda>addr.
           if \<not> falsy_string addr then Inr addr else findFirstAddressByKeys_direct obj keys))
       else findFirstAddressByKeys_direct obj keys)"

function findFirstAddressByKeys :: "jsval \<Rightarrow> string list \<Rightarrow> js_error + string option"
  and findFirstAddressByKeys_loop :: "jsval list \<Rightarrow> string list \<Rightarrow> js_error + string option"
where
  "findFirstAddressByKeys node keys =
     (if \<not> truthy node then Inr None
      else if isArray node then
        bindE (for_of node) (\<lambda>vs. findFirstAddressByKeys_loop vs keys)
      else if typeof node \<noteq> ''object'' then Inr None
      else
        bindE (findFirstAddressByKeys_direct node keys) (\<lambda>direct.
          case direct of
            Some s \<Rightarrow> Inr (Some s)
          | None \<Rightarrow> bindE (Object_values node) (\<lambda>vs. findFirstAddressByKeys_loop vs keys)))"
| "findFirstAddressByKeys_loop [] keys = Inr None"
| "findFirstAddressByKeys_loop (v # vs) keys =
     bindE (findFirstAddressByKeys v keys) (\<lambda>found.
       if \<not> falsy_string found then Inr found else findFirstAddressByKeys_loop vs keys)"
  by pat_completeness auto
termination
  by (relation "measure (\<lambda>x. case x of Inl (node, keys) \<Rightarrow> size node
                                | Inr (vs, keys) \<Rightarrow> size_list size vs)")
     (auto simp: for_of_smaller Object_values_smaller)

text \<open>
  \<open>findAllStringsByKey\<close> pushes onto the array \<open>out\<close> it is given; the model returns the
  array it leaves.
\<close>

function findAllStringsByKey :: "jsval \<Rightarrow> string \<Rightarrow> string list \<Rightarrow> js_error + string list"
  and findAllStringsByKey_array :: "jsval list \<Rightarrow> string \<Rightarrow> string list \<Rightarrow> js_error + string list"
  and findAllStringsByKey_entries ::
    "(string \<times> jsval) list \<Rightarrow> string \<Rightarrow> string list \<Rightarrow> js_error + string list"
where
  "findAllStringsByKey node key out =
     (if \<not> truthy node then Inr out
      else if isArray node then
        bindE (for_of node) (\<lambda>vs. findAllStringsByKey_array vs key out)
      else if typeof node \<noteq> ''object'' then Inr out
      else bindE (Object_entries node) (\<lambda>kvs. findAllStringsByKey_entries kvs key out))"
| "findAllStringsByKey_array [] key out = Inr out"
| "findAllStringsByKey_array (v # vs) key out =
     bindE (findAllStringsByKey v key out) (\<lambda>out'. findAllStringsByKey_array vs key out')"
| "findAllStringsByKey_entries [] key out = Inr out"
| "findAllStringsByKey_entries (e # es) key out =
     bindE (findAllStringsByKey (snd e) key
              (if fst e = key \<and> typeof (snd e) = ''string'' then out @ [the_string (snd e)]
               else out))
       (\<lambda>out'. findAllStringsByKey_entries es key out')"
  by pat_completeness auto
termination
  by (relation "measure (\<lambda>x. case x of
                    Inl (node, key, out) \<Rightarrow> size node
                  | Inr (Inl (vs, key, out)) \<Rightarrow> size_list size vs
                  | Inr (Inr (es, key, out)) \<Rightarrow> size_list (size_prod (\<lambda>k. 0) size) es)")
     (auto simp: for_of_smaller Object_entries_smaller)

subsection \<open>The extractors on a call stack\<close>

text \<open>
  Each extractor calls itself once for every level of nesting of the payload, and the code
  has no guard on the depth: the definitions above are the extractors on a stack with room
  for every call.  On the stack of the program a call that finds no room throws a
  \<open>RangeError\<close>.  In the definitions below \<open>frames\<close> is the number of nested
  activations of the extractor that the stack can still hold; the loops over the elements
  and over the property values run inside the activation that started them.
\<close>

fun findFirstStringByKeys_stack :: "nat \<Rightarrow> jsval \<Rightarrow> string list \<Rightarrow> js_error + string option"
  and findFirstStringByKeys_stack_loop ::
    "nat \<Rightarrow> jsval list \<Rightarrow> string list \<Rightarrow> js_error + string option"
where
  "findFirstStringByKeys_stack 0 node keys = Inl RangeError"
| "findFirstStringByKeys_stack (Suc frames) node keys =
     (if \<not> truthy node then Inr None
      else if isArray node then
        bindE (for_of node) (\<lambda>vs. findFirstStringByKeys_stack_loop frames vs keys)
      else if typeof node \<noteq> ''object'' then Inr None
      else
        bindE (findFirstStringByKeys_direct node keys) (\<lambda>direct.
          case direct of
            Some s \<Rightarrow> Inr (Some s)
          | None \<Rightarrow>
              bindE (Object_values node) (\<lambda>vs. findFirstStringByKeys_stack_loop frames vs keys)))"
| "findFirstStringByKeys_stack_loop frames [] keys = Inr None"
| "findFirstStringByKeys_stack_loop frames (v # vs) keys =
     bindE (findFirstStringByKeys_stack frames v keys) (\<lambda>found.
       if \<not> falsy_string found then Inr found
       else findFirstStringByKeys_stack_loop frames vs keys)"

fun findFirstNumberLike_stack :: "nat \<Rightarrow> jsval \<Rightarrow> string list \<Rightarrow> js_error + jsnum option"
  and findFirstNumberLike_stack_loop ::
    "nat \<Rightarrow> jsval list \<Rightarrow> string list \<Rightarrow> js_error + jsnum option"
where
  "findFirstNumberLike_stack 0 node keys = Inl RangeError"
| "findFirstNumberLike_stack (Suc frames) node keys =
     (if \<not> truthy node then Inr None
      else if isArray node then
        bindE (for_of node) (\<lambda>vs. findFirstNumberLike_stack_loop frames vs keys)
      else if typeof node \<noteq> ''object'' then Inr None
      else
        bindE (findFirstNumberLike_direct node keys) (\<lambda>direct.
          case direct of
            Some n \<Rightarrow> Inr (Some n)
          | None \<Rightarrow>
              bindE (Object_values node) (\<lambda>vs. findFirstNumberLike_stack_loop frames vs keys)))"
| "findFirstNumberLike_stack_loop frames [] keys = Inr None"
| "findFirstNumberLike_stack_loop frames (v # vs) keys =
     bindE (findFirstNumberLike_stack frames v keys) (\<lambda>found.
       if found \<noteq> None then Inr found else findFirstNumberLike_stack_loop frames vs keys)"

fun findFirstAddressByKeys_stack :: "nat \<Rightarrow> jsval \<Rightarrow> string list \<Rightarrow> js_error + string option"
  and findFirstAddressByKeys_stack_loop ::
    "nat \<Rightarrow> jsval list \<Rightarrow> string list \<Rightarrow> js_error + string option"
where
  "findFirstAddressByKeys_stack 0 node keys = Inl RangeError"
| "findFirstAddressByKeys_stack (Suc frames) node keys =
     (if \<not> truthy node then Inr None
      else if isArray node then
        bindE (for_of node) (\<lambda>vs. findFirstAddressByKeys_stack_loop frames vs keys)
      else if typeof node \<noteq> ''object'' then Inr None
      else
        bindE (findFirstAddressByKeys_direct node keys) (\<lambda>direct.
          case direct of
            Some s \<Rightarrow> Inr (Some s)
          | None \<Rightarrow>
              bindE (Object_values node) (\<lambda>vs. findFirstAddressByKeys_stack_loop frames vs keys)))"
| "findFirstAddressByKeys_stack_loop frames [] keys = Inr None"
| "findFirstAddressByKeys_stack_loop frames (v # vs) keys =
     bindE (findFirstAddressByKeys_stack frames v keys) (\<lambda>found.
       if \<not> falsy_string found then Inr found
       else findFirstAddressByKeys_stack_loop frames vs keys)"

fun findAllStringsByKey_stack ::
    "nat \<Rightarrow> jsval \<Rightarrow> string \<Rightarrow> string list \<Rightarrow> js_error + string list"
  and findAllStringsByKey_stack_array ::
    "nat \<Rightarrow> jsval list \<Rightarrow> string \<Rightarrow> string list \<Rightarrow> js_error + string list"
  and findAllStringsByKey_stack_entries ::
    "nat \<Rightarrow> (string \<times> jsval) list \<Rightarrow> string \<Rightarrow> string list \<Rightarrow> js_error + string list"
where
  "findAllStringsByKey_stack 0 node key out = Inl RangeError"
| "findAllStringsByKey_stack (Suc frames) node key out =
     (if \<not> truthy node then Inr out
      else if isArray node then
        bindE (for_of node) (\<lambda>vs. findAllStringsByKey_stack_array frames vs key out)
      else if typeof node \<noteq> ''object'' then Inr out
      else bindE (Object_entries node) (\<lambda>kvs.
             findAllStringsByKey_stack_entries frames kvs key out))"
| "findAllStringsByKey_stack_array frames [] key out = Inr out"
| "findAllStringsByKey_stack_array frames (v # vs) key out =
     bindE (findAllStringsByKey_stack frames v key out) (\<lambda>out'.
       findAllStringsByKey_stack_array frames vs key out')"
| "findAllStringsByKey_stack_entries frames [] key out = Inr out"
| "findAllStringsByKey_stack_entries frames (e # es) key out =
     bindE (findAllStringsByKey_stack frames (snd e) key
              (if fst e = key \<and> typeof (snd e) = ''string'' then out @ [the_string (snd e)]
               else out))
       (\<lambda>out'. findAllStringsByKey_stack_entries frames es key out')"

text \<open>
  The nesting depth of a payload: a value that is neither an array nor an object has depth
  \<open>1\<close>, an array or an object is one level deeper than its deepest element or property
  value.  \<open>nested n\<close> is the empty array inside \<open>n\<close> arrays, the payload
  \<open>[[...[]...]]\<close>.
\<close>

function (sequential) depth :: "jsval \<Rightarrow> nat"
  and depth_list :: "jsval list \<Rightarrow> nat"
  and depth_entries :: "(string \<times> jsval) list \<Rightarrow> nat"
where
  "depth (Arr vs) = Suc (depth_list vs)"
| "depth (Obj kvs) = Suc (depth_entries kvs)"
| "depth v = 1"
| "depth_list [] = 0"
| "depth_list (v # vs) = max (depth v) (depth_list vs)"
| "depth_entries [] = 0"
| "depth_entries (e # es) = max (depth (snd e)) (depth_entries es)"
  by pat_completeness auto
termination
  by (relation "measure (\<lambda>x. case x of
                    Inl node \<Rightarrow> size node
                  | Inr (Inl vs) \<Rightarrow> size_list size vs
                  | Inr (Inr es) \<Rightarrow> size_list (size_prod (\<lambda>k. 0) size) es)")
     auto

fun nested :: "nat \<Rightarrow> jsval" where
  "nested 0 = Arr []"
| "nested (Suc n) = Arr [nested n]"

text \<open>
  What an extractor looks for.  The nodes of a payload are the payload itself and the
  nodes of its elements (of an array) or of its property values (of an object); the
  matches of a payload are the hits at its nodes.  A hit of \<open>findFirstStringByKeys\<close> at
  an object is a string that is the value of a property named by one of the keys; a hit
  of \<open>findFirstNumberLike\<close> is the amount that \<open>toTon\<close> reads from such a property, a
  hit of \<open>findFirstAddressByKeys\<close> the address that \<open>extractAddressFromNode\<close> reads from
  it, and a hit of \<open>findAllStringsByKey\<close> a string that is the value of a property of
  the given name.
\<close>

function (sequential) subnodes :: "jsval \<Rightarrow> jsval list"
  and subnodes_list :: "jsval list \<Rightarrow> jsval list"
  and subnodes_entries :: "(string \<times> jsval) list \<Rightarrow> jsval list"
where
  "subnodes (Arr vs) = Arr vs # subnodes_list vs"
| "subnodes (Obj kvs) = Obj kvs # subnodes_entries kvs"
| "subnodes v = [v]"
| "subnodes_list [] = []"
| "subnodes_list (v # vs) = subnodes v @ subnodes_list vs"
| "subnodes_entries [] = []"
| "subnodes_entries (e # es) = subnodes (snd e) @ subnodes_entries es"
  by pat_completeness auto
termination
  by (relation "measure (\<lambda>x. case x of
                    Inl node \<Rightarrow> size node
                  | Inr (Inl vs) \<Rightarrow> size_list size vs
                  | Inr (Inr es) \<Rightarrow> size_list (size_prod (\<lambda>k. 0) size) es)")
     auto

definition matches :: "(jsval \<Rightarrow> 'a list) \<Rightarrow> jsval \<Rightarrow> 'a list" where
  "matches hits node = concat (map hits (subnodes node))"

definition properties :: "jsval \<Rightarrow> (string \<times> jsval) list" where
  "properties node = (case node of Obj kvs \<Rightarrow> kvs | _ \<Rightarrow> [])"

definition string_hits :: "string list \<Rightarrow> jsval \<Rightarrow> string list" where
  "string_hits keys node =
     List.map_filter
       (\<lambda>key. case map_of (properties node) key of Some (Str s) \<Rightarrow> Some s | _ \<Rightarrow> None) keys"

definition number_hits :: "string list \<Rightarrow> jsval \<Rightarrow> jsnum list" where
  "number_hits keys node =
     List.map_filter
       (\<lambda>key. case map_of (properties node) key of
                 Some v \<Rightarrow> (case toTon v of Inr (Some n) \<Rightarrow> Some n | _ \<Rightarrow> None)
               | None \<Rightarrow> None) keys"

definition address_hits :: "string list \<Rightarrow> jsval \<Rightarrow> string list" where
  "address_hits keys node =
     List.map_filter
       (\<lambda>key. case map_of (properties node) key of
                 Some v \<Rightarrow> (case extractAddressFromNode v of Inr (Some a) \<Rightarrow> Some a | _ \<Rightarrow> None)
               | None \<Rightarrow> None) keys"

definition key_hits :: "string \<Rightarrow> jsval \<Rightarrow> string list" where
  "key_hits key node =
     List.map_filter
       (\<lambda>e. case snd e of Str s \<Rightarrow> if fst e = key then Some s else None | _ \<Rightarrow> None)
       (properties node)"

subsection \<open>The preference store: normalizing filters\<close>

text \<open>
  \<open>String(v)\<close>.  The digits of a number are the parameter \<open>show\<close> (number formatting is
  not modelled).  An array is joined with commas, \<open>null\<close> and \<open>undefined\<close> elements as the
  empty string.  A parsed object answers \<open>[object Object]\<close>, unless it has a property
  named \<open>toString\<close>: that value is not callable, the inherited \<open>valueOf\<close> returns the
  object, and the conversion throws a \<open>TypeError\<close>.
\<close>

function js_String :: "(jsnum \<Rightarrow> string) \<Rightarrow> jsval \<Rightarrow> js_error + string"
  and js_join :: "(jsnum \<Rightarrow> string) \<Rightarrow> jsval list \<Rightarrow> js_error + string"
where
  "js_String show Undefined = Inr ''undefined''"
| "js_String show Null = Inr ''null''"
| "js_String show (Bool b) = Inr (if b then ''true'' else ''false'')"
| "js_String show (Num n) = Inr (show n)"
| "js_String show (Str s) = Inr s"
| "js_String show (Arr vs) = js_join show vs"
| "js_String show (Obj kvs) =
     (if ''toString'' \<in> set (map fst kvs) then Inl TypeError else Inr ''[object Object]'')"
| "js_join show [] = Inr []"
| "js_join show (v # vs) =
     bindE (if v = Undefined \<or> v = Null then Inr [] else js_String show v) (\<lambda>s.
       if vs = [] then Inr s
       else bindE (js_join show vs) (\<lambda>rest. Inr (s @ '','' @ rest)))"
  by pat_completeness auto
termination
  by (relation "measure (\<lambda>x. case x of Inl (show, v) \<Rightarrow> size v
                                | Inr (show, vs) \<Rightarrow> size_list size vs)")
     auto

text \<open>\<open>Number(v)\<close>: an object or array is converted through its string.\<close>

fun js_Number :: "(jsnum \<Rightarrow> string) \<Rightarrow> jsval \<Rightarrow> js_error + jsnum" where
  "js_Number show Undefined = Inr NaN"
| "js_Number show Null = Inr (Fin 0)"
| "js_Number show (Bool b) = Inr (if b then Fin 1 else Fin 0)"
| "js_Number show (Num n) = Inr n"
| "js_Number show (Str s) = Inr (Number_string s)"
| "js_Number show v = bindE (js_String show v) (\<lambda>s. Inr (Number_string s))"

fun Math_max :: "jsnum \<Rightarrow> jsnum \<Rightarrow> jsnum" where
  "Math_max NaN b = NaN"
| "Math_max a NaN = NaN"
| "Math_max a b = (if js_lt a b then b else a)"

definition normalizeTab :: "(jsnum \<Rightarrow> string) \<Rightarrow> jsval \<Rightarrow> js_error + string" where
  "normalizeTab show v =
     bindE (nullish v (Inr (Str ''''))) (\<lambda>v'.
     bindE (js_String show v') (\<lambda>str.
       let s = toLowerCase str
       in if s = ''sale'' then Inr ''sale''
          else if s = ''rent'' then Inr ''rent''
          else Inr ''listing''))"

definition asNumber :: "(jsnum \<Rightarrow> string) \<Rightarrow> jsval \<Rightarrow> jsnum \<Rightarrow> js_error + jsnum" where
  "asNumber show v def =
     bindE (case v of Num n \<Rightarrow> Inr n | _ \<Rightarrow> js_Number show v) (\<lambda>n.
       Inr (if isFinite n then n else def))"

text \<open>\<open>modelsRaw.map((m) => String(m).trim())\<close>: the first conversion that throws ends it.\<close>

fun normalizeFilters_map :: "(jsnum \<Rightarrow> string) \<Rightarrow> jsval list \<Rightarrow> js_error + string list" where
  "normalizeFilters_map show [] = Inr []"
| "normalizeFilters_map show (m # ms) =
     bindE (js_String show m) (\<lambda>s.
     bindE (normalizeFilters_map show ms) (\<lambda>rest. Inr (trim s # rest)))"

definition normalizeFilters :: "(jsnum \<Rightarrow> string) \<Rightarrow> jsval \<Rightarrow> js_error + Filters" where
  "normalizeFilters show input =
     (let obj = (if truthy input \<and> typeof input = ''object'' then input else Obj [])
      in bindE (get obj ''tab'') (\<lambda>tab_in.
         bindE (normalizeTab show tab_in) (\<lambda>tab'.
         bindE (get obj ''minTon'') (\<lambda>min_in.
         bindE (asNumber show min_in (Fin 0)) (\<lambda>min_n.
         bindE (get obj ''maxTon'') (\<lambda>max_in.
         bindE (asNumber show max_in (Fin 5000)) (\<lambda>max_n.
         bindE (get obj ''models'') (\<lambda>models_in.
         bindE (if isArray models_in then for_of models_in else Inr []) (\<lambda>modelsRaw.
         bindE (normalizeFilters_map show modelsRaw) (\<lambda>mapped.
           Inr \<lparr>tab = tab', minTon = Math_max (Fin 0) min_n, maxTon = Math_max (Fin 0) max_n,
                models = take 500 (filter (\<lambda>s. s \<noteq> []) mapped)\<rparr>))))))))))"

text \<open>
  The handler of \<open>PUT /api/filters\<close>.  The outcome of the two credential checks and of
  the file write are inputs; the handler returns its reply (\<open>Inl\<close>: it throws, the
  framework answers with an error) and the store \<open>filtersStore\<close> it leaves.
\<close>

record put_request =
  verified_ok :: bool
  verified_userId :: "string option"
  token_ok :: bool
  req_body :: jsval
  write_ok :: bool

datatype put_reply = Unauthorized | Saved string Filters

text \<open>
  \<open>filtersStore\<close> is a plain object.  An assignment \<open>filtersStore[userKey] = next\<close> sets
  an own property, except for the name \<open>__proto__\<close>: unless the object has an own property
  of that name, the assignment runs the inherited setter and makes \<open>next\<close> the prototype
  of the store.  The store is its own properties and the record, if any, that took the
  place of its prototype.
\<close>

record filters_store =
  own_props :: "string \<Rightarrow> Filters option"
  prototype :: "Filters option"

definition store_assign :: "string \<Rightarrow> Filters \<Rightarrow> filters_store \<Rightarrow> filters_store" where
  "store_assign key next store =
     (if key = ''__proto__'' \<and> own_props store ''__proto__'' = None
      then store\<lparr>prototype := Some next\<rparr>
      else store\<lparr>own_props := (own_props store)(key \<mapsto> next)\<rparr>)"

text \<open>The object \<open>normalizeFilters\<close> reads its fields from.\<close>

definition filters_object :: "jsval \<Rightarrow> jsval" where
  "filters_object input = (if truthy input \<and> typeof input = ''object'' then input else Obj [])"

definition put_filters ::
  "(jsnum \<Rightarrow> string) \<Rightarrow> put_request \<Rightarrow> filters_store
     \<Rightarrow> (js_error + put_reply) \<times> filters_store" where
  "put_filters show req store =
     (if \<not> verified_ok req \<and> \<not> token_ok req then (Inr Unauthorized, store)
      else
        (let body = (if truthy (req_body req) \<and> typeof (req_body req) = ''object''
                     then req_body req else Obj []);
             userKey =
               (if \<not> falsy_string (verified_userId req) then Inr (the (verified_userId req))
                else bindE (get body ''userKey'') (\<lambda>k.
                     bindE (nullish k (Inr (Str ''default''))) (\<lambda>k'. js_String show k')))
         in case userKey of
              Inl e \<Rightarrow> (Inl e, store)
            | Inr key \<Rightarrow>
                (case bindE (get body ''filters'') (normalizeFilters show) of
                   Inl e \<Rightarrow> (Inl e, store)
                 | Inr next \<Rightarrow>
                     (if write_ok req then Inr (Saved key next) else Inl (Error ''write failed''),
                      store_assign key next store))))"

text \<open>A normalized filter record, as the invariant of the store words it.\<close>

definition normalized :: "Filters \<Rightarrow> bool" where
  "normalized f =
     (tab f \<in> set [''listing'', ''sale'', ''rent'']
      \<and> (case minTon f of Fin a \<Rightarrow> 0 \<le> a | _ \<Rightarrow> False)
      \<and> (case maxTon f of Fin b \<Rightarrow> 0 \<le> b | _ \<Rightarrow> False)
      \<and> length (models f) \<le> 500
      \<and> list_all (\<lambda>m. m \<noteq> [] \<and> trim m = m) (models f))"

subsection \<open>Recent sales of a model\<close>

text \<open>
  The configuration read from the environment at start-up: the watch list (already split,
  trimmed and without empty items) and the gift collection.
\<close>

record config =
  WATCH_ACCOUNTS :: "string list"
  GIFTS_COLLECTION :: string

text \<open>\<open>new Set(xs)\<close>, listed in insertion order: the first occurrence of each item.\<close>

definition Set_from :: "string list \<Rightarrow> string list" where
  "Set_from xs = foldl (\<lambda>acc a. if a \<in> set acc then acc else acc @ [a]) [] xs"

definition getMarketsSet :: "config \<Rightarrow> string list" where
  "getMarketsSet cfg =
     Set_from (filter (\<lambda>a. a \<noteq> [] \<and> a \<noteq> GIFTS_COLLECTION cfg) (WATCH_ACCOUNTS cfg))"

definition getActionType :: "jsval \<Rightarrow> js_error + string option" where
  "getActionType action =
     bindE (get action ''type'') (\<lambda>t.
       if typeof t = ''string'' then Inr (Some (the_string t))
       else
         bindE (get action ''action_type'') (\<lambda>t2.
           if typeof t2 = ''string'' then Inr (Some (the_string t2))
           else
             bindE (get action ''kind'') (\<lambda>k.
               if typeof k = ''string'' then Inr (Some (the_string k)) else Inr None)))"

record sales_entry =
  sales_at :: int
  sales_prices :: "jsnum list"

type_synonym recent_sales_cache = "string \<Rightarrow> sales_entry option"

definition RECENT_SALES_CACHE_TTL_MS :: int where
  "RECENT_SALES_CACHE_TTL_MS = 3 * 60 * 1000"

definition RECENT_SALES_MAX :: nat where
  "RECENT_SALES_MAX = 3"

definition NFT_ADDRESS_KEYS :: "string list" where
  "NFT_ADDRESS_KEYS = [''nft_address'', ''nft'', ''nft_item'', ''item'', ''address'']"

definition AMOUNT_KEYS :: "string list" where
  "AMOUNT_KEYS = [''amount'', ''price'', ''ton'', ''ton_amount'', ''value'']"

text \<open>
  The body of the innermost loop of \<open>getRecentSalesForModel\<close> for one action: the price
  it pushes (\<open>None\<close>: it continues with the next action) and the model cache it leaves.
\<close>

definition getRecentSales_action ::
  "int \<Rightarrow> (string \<Rightarrow> http_result) \<Rightarrow> string \<Rightarrow> jsval \<Rightarrow> nft_model_cache
     \<Rightarrow> (js_error + jsnum option) \<times> nft_model_cache" where
  "getRecentSales_action now nfts m act cache =
     (if \<not> truthy act \<or> typeof act \<noteq> ''object'' then (Inr None, cache)
      else
        case getActionType act of
          Inl e \<Rightarrow> (Inl e, cache)
        | Inr ty \<Rightarrow>
            (let type = toLowerCase (case ty of None \<Rightarrow> [] | Some t \<Rightarrow> t)
             in if \<not> str_includes type ''purchase'' \<and> \<not> str_includes type ''nftpurchase''
                then (Inr None, cache)
                else
                  case findFirstAddressByKeys act NFT_ADDRESS_KEYS of
                    Inl e \<Rightarrow> (Inl e, cache)
                  | Inr nft_addr \<Rightarrow>
                      if falsy_string nft_addr then (Inr None, cache)
                      else
                        (case getModelByNftAddressCached now nfts (the nft_addr) cache of
                           (Inl e, cache') \<Rightarrow> (Inl e, cache')
                         | (Inr foundModel, cache') \<Rightarrow>
                             if falsy_string foundModel then (Inr None, cache')
                             else if toLowerCase (the foundModel) \<noteq> toLowerCase m
                             then (Inr None, cache')
                             else
                               (case findFirstNumberLike act AMOUNT_KEYS of
                                  Inl e \<Rightarrow> (Inl e, cache')
                                | Inr None \<Rightarrow> (Inr None, cache')
                                | Inr (Some rawAmount) \<Rightarrow>
                                    (let ton = toTonMaybe rawAmount
                                     in if \<not> isFinite ton \<or> js_le ton (Fin 0)
                                        then (Inr None, cache')
                                        else (Inr (Some ton), cache'))))))"

text \<open>The three nested loops; each starts with \<open>if (prices.length >= RECENT_SALES_MAX) break\<close>.\<close>

fun getRecentSales_actions ::
  "int \<Rightarrow> (string \<Rightarrow> http_result) \<Rightarrow> string \<Rightarrow> jsval list \<Rightarrow> jsnum list \<Rightarrow> nft_model_cache
     \<Rightarrow> (js_error + jsnum list) \<times> nft_model_cache" where
  "getRecentSales_actions now nfts m [] prices cache = (Inr prices, cache)"
| "getRecentSales_actions now nfts m (act # acts) prices cache =
     (if length prices \<ge> RECENT_SALES_MAX then (Inr prices, cache)
      else
        case getRecentSales_action now nfts m act cache of
          (Inl e, cache') \<Rightarrow> (Inl e, cache')
        | (Inr None, cache') \<Rightarrow> getRecentSales_actions now nfts m acts prices cache'
        | (Inr (Some ton), cache') \<Rightarrow>
            getRecentSales_actions now nfts m acts (prices @ [ton]) cache')"

fun getRecentSales_events ::
  "int \<Rightarrow> (string \<Rightarrow> http_result) \<Rightarrow> string \<Rightarrow> jsval list \<Rightarrow> jsnum list \<Rightarrow> nft_model_cache
     \<Rightarrow> (js_error + jsnum list) \<times> nft_model_cache" where
  "getRecentSales_events now nfts m [] prices cache = (Inr prices, cache)"
| "getRecentSales_events now nfts m (ev # evs) prices cache =
     (if length prices \<ge> RECENT_SALES_MAX then (Inr prices, cache)
      else if \<not> truthy ev \<or> typeof ev \<noteq> ''object''
      then getRecentSales_events now nfts m evs prices cache
      else
        case get ev ''actions'' of
          Inl e \<Rightarrow> (Inl e, cache)
        | Inr actions \<Rightarrow>
            if \<not> isArray actions then getRecentSales_events now nfts m evs prices cache
            else
              (case for_of actions of
                 Inl e \<Rightarrow> (Inl e, cache)
               | Inr acts \<Rightarrow>
                   (case getRecentSales_actions now nfts m acts prices cache of
                      (Inl e, cache') \<Rightarrow> (Inl e, cache')
                    | (Inr prices', cache') \<Rightarrow>
                        getRecentSales_events now nfts m evs prices' cache')))"

fun getRecentSales_markets ::
  "int \<Rightarrow> (string \<Rightarrow> http_result) \<Rightarrow> (string \<Rightarrow> http_result) \<Rightarrow> string \<Rightarrow> string list
     \<Rightarrow> jsnum list \<Rightarrow> nft_model_cache \<Rightarrow> (js_error + jsnum list) \<times> nft_model_cache" where
  "getRecentSales_markets now activity nfts m [] prices cache = (Inr prices, cache)"
| "getRecentSales_markets now activity nfts m (accountId # accounts) prices cache =
     (if length prices \<ge> RECENT_SALES_MAX then (Inr prices, cache)
      else
        (let events = tonapiGetAccountEvents (activity accountId)
         in if \<not> truthy events \<or> typeof events \<noteq> ''object''
            then getRecentSales_markets now activity nfts m accounts prices cache
            else
              case get events ''events'' of
                Inl e \<Rightarrow> (Inl e, cache)
              | Inr list \<Rightarrow>
                  if \<not> isArray list
                  then getRecentSales_markets now activity nfts m accounts prices cache
                  else
                    (case for_of list of
                       Inl e \<Rightarrow> (Inl e, cache)
                     | Inr evs \<Rightarrow>
                         (case getRecentSales_events now nfts m evs prices cache of
                            (Inl e, cache') \<Rightarrow> (Inl e, cache')
                          | (Inr prices', cache') \<Rightarrow>
                              getRecentSales_markets now activity nfts m accounts prices' cache'))))"

text \<open>
  \<open>getRecentSalesForModel\<close> at time \<open>now\<close> (every \<open>Date.now()\<close> of the call reads \<open>now\<close>),
  where \<open>activity\<close> is what the activity endpoint answers for each account and \<open>nfts\<close> what
  the metadata endpoint answers for each asset.  It returns the prices (\<open>None\<close> is
  \<open>null\<close>) and the two caches.
\<close>

definition getRecentSalesForModel ::
  "int \<Rightarrow> config \<Rightarrow> (string \<Rightarrow> http_result) \<Rightarrow> (string \<Rightarrow> http_result) \<Rightarrow> string
     \<Rightarrow> nft_model_cache \<Rightarrow> recent_sales_cache
     \<Rightarrow> (js_error + jsnum list option) \<times> nft_model_cache \<times> recent_sales_cache" where
  "getRecentSalesForModel now cfg activity nfts model_name cache sales =
     (let m = trim model_name
      in if m = [] then (Inr None, cache, sales)
         else if (case sales (toLowerCase m) of None \<Rightarrow> False
                  | Some cached \<Rightarrow> now - sales_at cached < RECENT_SALES_CACHE_TTL_MS)
         then (Inr (Some (sales_prices (the (sales (toLowerCase m))))), cache, sales)
         else
           (case getRecentSales_markets now activity nfts m (getMarketsSet cfg) [] cache of
              (Inl e, cache') \<Rightarrow> (Inl e, cache', sales)
            | (Inr prices, cache') \<Rightarrow>
                (let out = take RECENT_SALES_MAX prices
                 in (Inr (if length out > 0 then Some out else None), cache',
                     sales(toLowerCase m \<mapsto> \<lparr>sales_at = now, sales_prices = out\<rparr>)))))"

text \<open>
  The specification's reading of the same call.  The model of a traded asset is what the cached
  lookup answers for it; an action qualifies with a price when its type contains
  \<open>purchase\<close>, the model of its asset is the requested model (both lower-cased) and the
  amount found in it is finite and positive; the actions are taken market by market,
  event by event, in order.
\<close>

definition asset_model :: "int \<Rightarrow> (string \<Rightarrow> http_result) \<Rightarrow> nft_model_cache \<Rightarrow> string \<Rightarrow> string option" where
  "asset_model now nfts cache a =
     (case fst (getModelByNftAddressCached now nfts a cache) of
        Inr found \<Rightarrow> found
      | Inl e \<Rightarrow> None)"

definition action_type :: "jsval \<Rightarrow> string" where
  "action_type act = (case getActionType act of Inr (Some t) \<Rightarrow> t | _ \<Rightarrow> [])"

definition qualifying_price ::
  "int \<Rightarrow> (string \<Rightarrow> http_result) \<Rightarrow> nft_model_cache \<Rightarrow> string \<Rightarrow> jsval \<Rightarrow> jsnum option" where
  "qualifying_price now nfts cache m act =
     (if \<not> (truthy act \<and> typeof act = ''object'') then None
      else if \<not> str_includes (toLowerCase (action_type act)) ''purchase'' then None
      else
        case findFirstAddressByKeys act NFT_ADDRESS_KEYS of
          Inr (Some a) \<Rightarrow>
            (case asset_model now nfts cache a of
               Some found \<Rightarrow>
                 if a \<noteq> [] \<and> found \<noteq> [] \<and> toLowerCase found = toLowerCase m then
                   (case findFirstNumberLike act AMOUNT_KEYS of
                      Inr (Some raw) \<Rightarrow>
                        if isFinite (toTonMaybe raw) \<and> js_lt (Fin 0) (toTonMaybe raw)
                        then Some (toTonMaybe raw) else None
                    | _ \<Rightarrow> None)
                 else None
             | None \<Rightarrow> None)
        | _ \<Rightarrow> None)"

definition event_actions :: "jsval \<Rightarrow> jsval list" where
  "event_actions ev =
     (if truthy ev \<and> typeof ev = ''object'' then
        (case get ev ''actions'' of Inr (Arr acts) \<Rightarrow> acts | _ \<Rightarrow> [])
      else [])"

definition market_events :: "(string \<Rightarrow> http_result) \<Rightarrow> string \<Rightarrow> jsval list" where
  "market_events activity accountId =
     (let events = tonapiGetAccountEvents (activity accountId)
      in if truthy events \<and> typeof events = ''object'' then
           (case get events ''events'' of Inr (Arr evs) \<Rightarrow> evs | _ \<Rightarrow> [])
         else [])"

definition actions_in_order :: "(string \<Rightarrow> http_result) \<Rightarrow> string list \<Rightarrow> jsval list" where
  "actions_in_order activity accounts =
     concat (map (\<lambda>accountId. concat (map event_actions (market_events activity accountId))) accounts)"

definition qualifying_prices ::
  "int \<Rightarrow> (string \<Rightarrow> http_result) \<Rightarrow> nft_model_cache \<Rightarrow> string \<Rightarrow> jsval list \<Rightarrow> jsnum list" where
  "qualifying_prices now nfts cache m acts = List.map_filter (qualifying_price now nfts cache m) acts"

text \<open>What a loop entered with \<open>prices\<close> returns when the list ahead holds the prices \<open>q\<close>.\<close>

definition capped :: "jsnum list \<Rightarrow> jsnum list \<Rightarrow> jsnum list" where
  "capped prices q = prices @ take (RECENT_SALES_MAX - length prices) q"

text \<open>
  A scenario: two markets, six purchase actions, five of them of the requested model
  (the metadata of the asset \<open>EQ2\<close> cannot be fetched).
\<close>

definition scenario_sale :: "string \<Rightarrow> real \<Rightarrow> jsval" where
  "scenario_sale a p =
     Obj [(''type'', Str ''NftPurchase''), (''nft'', Obj [(''address'', Str a)]),
          (''amount'', Num (Fin p))]"

definition scenario_activity :: "string \<Rightarrow> http_result" where
  "scenario_activity account =
     (if account = ''m1'' then
        Response True (Some (Obj [(''events'',
          Arr [Obj [(''actions'', Arr [scenario_sale ''EQ1'' 5000000000, scenario_sale ''EQ2'' 7,
                                       scenario_sale ''EQ1'' 3])],
               Obj [(''actions'', Arr [scenario_sale ''EQ1'' 4])]])]))
      else if account = ''m3'' then
        Response True (Some (Obj [(''events'',
          Arr [Obj [(''actions'', Arr [scenario_sale ''EQ1'' 6, scenario_sale ''EQ1'' 8])]])]))
      else FetchThrows)"

definition scenario_nfts :: "string \<Rightarrow> http_result" where
  "scenario_nfts a =
     (if a = ''EQ1'' then
        Response True (Some (Obj [(''metadata'', Obj [(''name'', Str ''Plush Pepe'')])]))
      else FetchThrows)"

definition scenario_config :: config where
  "scenario_config = \<lparr>WATCH_ACCOUNTS = [''m1'', ''m2'', ''m1'', ''m3''], GIFTS_COLLECTION = ''m2''\<rparr>"

section \<open>Properties\<close>

subsection \<open>Markdown escaping\<close>

lemma backslash_reserved: "backslash \<in> set markdownV2_reserved"
  by (simp add: markdownV2_reserved_def)

lemma stripEscapes_plain:
  "c \<noteq> backslash \<Longrightarrow> stripEscapes (c # cs) = c # stripEscapes cs"
  by (cases cs) simp_all

lemma stripEscapes_escapeMarkdownV2: "stripEscapes (escapeMarkdownV2 s) = s"
proof (induction s)
  case Nil
  show ?case by simp
next
  case (Cons c cs)
  show ?case
  proof (cases "c \<in> set markdownV2_reserved")
    case True
    then show ?thesis using Cons.IH by simp
  next
    case False
    then have "c \<noteq> backslash" using backslash_reserved by auto
    then show ?thesis using False Cons.IH by (simp add: stripEscapes_plain)
  qed
qed

lemma escapeMarkdownV2_append:
  "escapeMarkdownV2 (s @ t) = escapeMarkdownV2 s @ escapeMarkdownV2 t"
  by (induction s) simp_all

lemma length_escapeMarkdownV2:
  "length (escapeMarkdownV2 s) = length s + length (filter (\<lambda>c. c \<in> set markdownV2_reserved) s)"
  by (induction s) simp_all

text \<open>
  C9.  Escaping puts exactly one backslash before each occurrence of a reserved character
  (the backslash included) and leaves every other character alone; taking the escape
  backslash away again before each reserved character gives back the input, for every
  string.
\<close>

theorem C9_escapeMarkdownV2_roundtrip:
  "stripEscapes (escapeMarkdownV2 s) = s
   \<and> escapeMarkdownV2 (s @ [c] @ t) =
       escapeMarkdownV2 s @ (if c \<in> set markdownV2_reserved then [backslash, c] else [c])
         @ escapeMarkdownV2 t
   \<and> length (escapeMarkdownV2 s) =
       length s + length (filter (\<lambda>c. c \<in> set markdownV2_reserved) s)
   \<and> backslash \<in> set markdownV2_reserved"
proof -
  have inverse: "stripEscapes (escapeMarkdownV2 s) = s"
    by (rule stripEscapes_escapeMarkdownV2)
  have one: "escapeMarkdownV2 [c] = (if c \<in> set markdownV2_reserved then [backslash, c] else [c])"
    by simp
  have each: "escapeMarkdownV2 (s @ [c] @ t) =
       escapeMarkdownV2 s @ (if c \<in> set markdownV2_reserved then [backslash, c] else [c])
         @ escapeMarkdownV2 t"
    unfolding escapeMarkdownV2_append one ..
  show ?thesis
    using inverse each length_escapeMarkdownV2[of s] backslash_reserved by blast
qed

subsection \<open>The seen-event map\<close>

lemma cleanupSeen_ttl_filter:
  "cleanupSeen_ttl now es m =
     filter (\<lambda>e. fst e \<notin> fst ` {e' \<in> set es. now - snd e' > SEEN_TTL_MS}) m"
proof (induction es arbitrary: m)
  case Nil
  show ?case by simp
next
  case (Cons e es)
  show ?case
    by (auto simp add: Cons.IH seen_delete_def intro!: filter_cong)
qed

lemma cleanupSeen_ttl_distinct:
  assumes "distinct (map fst m)"
  shows "cleanupSeen_ttl now m m = filter (\<lambda>e. \<not> now - snd e > SEEN_TTL_MS) m"
proof -
  have "\<And>e. e \<in> set m \<Longrightarrow>
      (fst e \<notin> fst ` {e' \<in> set m. now - snd e' > SEEN_TTL_MS}) = (\<not> now - snd e > SEEN_TTL_MS)"
  proof -
    fix e assume e: "e \<in> set m"
    have "\<And>e'. e' \<in> set m \<Longrightarrow> fst e' = fst e \<Longrightarrow> e' = e"
      using assms e by (meson eq_key_imp_eq_value prod.collapse prod_eqI distinct_map inj_onD)
    then show "(fst e \<notin> fst ` {e' \<in> set m. now - snd e' > SEEN_TTL_MS}) = (\<not> now - snd e > SEEN_TTL_MS)"
      using e by auto
  qed
  then show ?thesis
    unfolding cleanupSeen_ttl_filter by (intro filter_cong) auto
qed

lemma seen_delete_head:
  "fst e \<notin> set (map fst m) \<Longrightarrow> seen_delete (fst e) (e # m) = m"
  by (induction m) (auto simp: seen_delete_def)

lemma cleanupSeen_evict_drop:
  "distinct (map fst m) \<Longrightarrow> i < extra \<Longrightarrow>
   cleanupSeen_evict i extra (map fst m) m = drop (extra - i) m"
proof (induction m arbitrary: i)
  case Nil
  show ?case by simp
next
  case (Cons e m)
  have del: "seen_delete (fst e) (e # m) = m"
    using Cons.prems(1) by (intro seen_delete_head) simp
  show ?case
  proof (cases "Suc i \<ge> extra")
    case True
    then have "extra - i = Suc 0" using Cons.prems(2) by simp
    then show ?thesis using True del by simp
  next
    case False
    then have "cleanupSeen_evict (Suc i) extra (map fst m) m = drop (extra - Suc i) m"
      using Cons.IH[of "Suc i"] Cons.prems(1) by simp
    moreover have "extra - i = Suc (extra - Suc i)" using False by simp
    ultimately show ?thesis using False del by simp
  qed
qed

lemma cleanupSeen_eq:
  assumes "distinct (map fst m)"
  shows "cleanupSeen now m =
    drop (length (filter (\<lambda>e. \<not> now - snd e > SEEN_TTL_MS) m) - SEEN_MAX)
      (filter (\<lambda>e. \<not> now - snd e > SEEN_TTL_MS) m)"
proof -
  let ?m1 = "filter (\<lambda>e. \<not> now - snd e > SEEN_TTL_MS) m"
  have d1: "distinct (map fst ?m1)" using assms by (simp add: distinct_map_filter)
  show ?thesis
  proof (cases "length ?m1 \<le> SEEN_MAX")
    case True
    then show ?thesis by (simp add: cleanupSeen_def Let_def cleanupSeen_ttl_distinct[OF assms])
  next
    case False
    then have "0 < length ?m1 - SEEN_MAX" by simp
    then show ?thesis
      using False cleanupSeen_evict_drop[OF d1, of 0 "length ?m1 - SEEN_MAX"]
      by (simp add: cleanupSeen_def Let_def cleanupSeen_ttl_distinct[OF assms])
  qed
qed

lemma cleanupSeen_distinct:
  "distinct (map fst m) \<Longrightarrow> distinct (map fst (cleanupSeen now m))"
  by (simp add: cleanupSeen_eq distinct_map_filter drop_map[symmetric] distinct_drop del: drop_map)

lemma seen_set_keys: "set (map fst (seen_set k v m)) = insert k (set (map fst m))"
  by (induction m) auto

lemma seen_set_distinct:
  "distinct (map fst m) \<Longrightarrow> distinct (map fst (seen_set k v m))"
  by (induction m) (auto simp: seen_set_keys simp del: set_map)

lemma seen_has_seen_set: "seen_has h (seen_set k v m) = (h = k \<or> seen_has h m)"
  unfolding seen_has_def seen_set_keys by auto

lemma handleTrace_gate_distinct:
  "distinct (map fst m) \<Longrightarrow> distinct (map fst (snd (handleTrace_gate now h m)))"
  by (simp add: handleTrace_gate_def Let_def cleanupSeen_distinct seen_set_distinct)

lemma length_deliveries: "length (deliveries m ds) = length ds"
  by (induction ds arbitrary: m) simp_all

lemma retained_dropped:
  "retained h m ds \<Longrightarrow> i < length ds \<Longrightarrow> snd (ds ! i) = h \<Longrightarrow> deliveries m ds ! i = Dropped"
proof (induction ds arbitrary: m i)
  case Nil
  then show ?case by simp
next
  case (Cons d ds)
  show ?case
  proof (cases i)
    case 0
    then show ?thesis using Cons.prems by (simp add: handleTrace_gate_def Let_def)
  next
    case (Suc j)
    then show ?thesis using Cons.prems Cons.IH[of "snd (handleTrace_gate (fst d) (snd d) m)" j]
      by simp
  qed
qed


lemma cleanupSeen_keeps:
  assumes "distinct (map fst m)" and "(h, ts) \<in> set m" and "now - ts \<le> SEEN_TTL_MS"
    and "length m \<le> SEEN_MAX"
  shows "seen_has h (cleanupSeen now m)"
proof -
  let ?m1 = "filter (\<lambda>e. \<not> now - snd e > SEEN_TTL_MS) m"
  have "length ?m1 \<le> length m" by simp
  then have "length ?m1 - SEEN_MAX = 0" using assms(4) by linarith
  then have "cleanupSeen now m = ?m1" by (simp add: cleanupSeen_eq[OF assms(1)])
  moreover have "(h, ts) \<in> set ?m1" using assms(2,3) by simp
  ultimately show ?thesis unfolding seen_has_def by force
qed

text \<open>
  C6.  After \<open>cleanupSeen(now)\<close> no entry of the map is older than the TTL and the map
  holds at most \<open>SEEN_MAX\<close> entries; what is left is the TTL survivors, in insertion order,
  without their oldest entries when they were more than \<open>SEEN_MAX\<close>.
\<close>

theorem C6_cleanupSeen_bounds:
  assumes "distinct (map fst m)"
  shows "(\<forall>e \<in> set (cleanupSeen now m). now - snd e \<le> SEEN_TTL_MS)
       \<and> length (cleanupSeen now m) \<le> SEEN_MAX
       \<and> cleanupSeen now m =
           drop (length (filter (\<lambda>e. now - snd e \<le> SEEN_TTL_MS) m) - SEEN_MAX)
             (filter (\<lambda>e. now - snd e \<le> SEEN_TTL_MS) m)"
proof -
  let ?m1 = "filter (\<lambda>e. now - snd e \<le> SEEN_TTL_MS) m"
  have same: "filter (\<lambda>e. \<not> now - snd e > SEEN_TTL_MS) m = ?m1"
    by (simp add: not_less)
  have eq: "cleanupSeen now m = drop (length ?m1 - SEEN_MAX) ?m1"
    using cleanupSeen_eq[OF assms, of now] unfolding same .
  have "set (cleanupSeen now m) \<subseteq> set ?m1"
    unfolding eq by (rule set_drop_subset)
  then have age: "\<forall>e \<in> set (cleanupSeen now m). now - snd e \<le> SEEN_TTL_MS"
    by auto
  have len: "length (cleanupSeen now m) \<le> SEEN_MAX"
    unfolding eq by simp
  show ?thesis using age len eq by blast
qed

theorem C6_cleanupSeen_bounds_witness:
  "distinct (map fst [(''a'', 0::int), (''b'', 500000), (''c'', 700000)])
   \<and> cleanupSeen 700000 [(''a'', 0), (''b'', 500000), (''c'', 700000)]
       = [(''b'', 500000), (''c'', 700000)]
   \<and> length (cleanupSeen 700000 [(''a'', 0), (''b'', 500000), (''c'', 700000)]) \<le> SEEN_MAX"
  using C6_cleanupSeen_bounds [of "[(''a'', 0), (''b'', 500000), (''c'', 700000)]" 700000]
  by (simp add: SEEN_TTL_MS_def SEEN_MAX_def)

lemma seen_set_fresh: "k \<notin> set (map fst m) \<Longrightarrow> seen_set k v m = m @ [(k, v)]"
  by (induction m) auto

lemma cleanupSeen_keeps_position:
  assumes d: "distinct (map fst m)" and m: "m = pre @ (h, ts) # post"
    and age: "now - ts \<le> SEEN_TTL_MS" and room: "Suc (length post) \<le> SEEN_MAX"
  shows "\<exists>pre' post'. cleanupSeen now m = pre' @ (h, ts) # post' \<and> length post' \<le> length post"
proof -
  let ?P = "\<lambda>e. \<not> now - snd e > SEEN_TTL_MS"
  let ?f = "filter ?P m"
  have f: "?f = filter ?P pre @ (h, ts) # filter ?P post"
    using m age by simp
  have short: "length (filter ?P post) \<le> length post" by simp
  have "length ?f = length (filter ?P pre) + Suc (length (filter ?P post))"
    unfolding f by simp
  then have k: "length ?f - SEEN_MAX \<le> length (filter ?P pre)"
    using short room by linarith
  have "cleanupSeen now m = drop (length ?f - SEEN_MAX) ?f"
    by (rule cleanupSeen_eq[OF d])
  also have "\<dots> = drop (length ?f - SEEN_MAX) (filter ?P pre) @ (h, ts) # filter ?P post"
    using k by (subst (2) f) simp
  finally show ?thesis using short by blast
qed

lemma handleTrace_gate_keeps_position:
  assumes d: "distinct (map fst m)" and m: "m = pre @ (h, ts) # post"
    and age: "now - ts \<le> SEEN_TTL_MS" and room: "Suc (length post) \<le> SEEN_MAX"
  shows "seen_has h (cleanupSeen now m)
       \<and> (\<exists>pre' post'. snd (handleTrace_gate now k m) = pre' @ (h, ts) # post'
             \<and> length post' \<le> Suc (length post))"
proof -
  obtain pre' post' where c: "cleanupSeen now m = pre' @ (h, ts) # post'"
    and l: "length post' \<le> length post"
    using cleanupSeen_keeps_position[OF assms] by blast
  have has: "seen_has h (cleanupSeen now m)" unfolding c seen_has_def by simp
  show ?thesis
  proof (cases "seen_has k (cleanupSeen now m)")
    case True
    then have "snd (handleTrace_gate now k m) = pre' @ (h, ts) # post'"
      using c by (simp add: handleTrace_gate_def Let_def)
    moreover have "length post' \<le> Suc (length post)" using l by simp
    ultimately show ?thesis using has by blast
  next
    case False
    then have "seen_set k now (cleanupSeen now m) = pre' @ (h, ts) # (post' @ [(k, now)])"
      using seen_set_fresh[of k "cleanupSeen now m" now] c by (simp add: seen_has_def)
    then have "snd (handleTrace_gate now k m) = pre' @ (h, ts) # (post' @ [(k, now)])"
      using False by (simp add: handleTrace_gate_def Let_def)
    moreover have "length (post' @ [(k, now)]) \<le> Suc (length post)" using l by simp
    ultimately show ?thesis using has by blast
  qed
qed

lemma retained_from_window:
  "distinct (map fst m) \<Longrightarrow> m = pre @ (h, ts) # post \<Longrightarrow>
   \<forall>d \<in> set ds. fst d - ts \<le> SEEN_TTL_MS \<Longrightarrow> length post + length ds \<le> SEEN_MAX \<Longrightarrow>
   retained h m ds"
proof (induction ds arbitrary: m pre post)
  case Nil
  show ?case by simp
next
  case (Cons d ds)
  have age: "fst d - ts \<le> SEEN_TTL_MS" using Cons.prems(3) by simp
  have room: "Suc (length post) \<le> SEEN_MAX" using Cons.prems(4) by simp
  from handleTrace_gate_keeps_position[OF Cons.prems(1,2) age room, of "snd d"]
  obtain pre' post' where has: "seen_has h (cleanupSeen (fst d) m)"
    and next_m: "snd (handleTrace_gate (fst d) (snd d) m) = pre' @ (h, ts) # post'"
    and l: "length post' \<le> Suc (length post)"
    by blast
  have dist: "distinct (map fst (snd (handleTrace_gate (fst d) (snd d) m)))"
    using handleTrace_gate_distinct[OF Cons.prems(1)] .
  have "length post' + length ds \<le> SEEN_MAX" using l Cons.prems(4) by simp
  then have "retained h (snd (handleTrace_gate (fst d) (snd d) m)) ds"
    using Cons.IH[OF dist next_m] Cons.prems(3) by simp
  then show ?case using has by simp
qed

text \<open>
  C2.  A hash that is not in the map after the sweep is processed and entered in the
  map.  In the window that follows, every delivery of the hash is dropped: the window
  lasts as long as the deliveries come no later than the TTL after the first one (the
  entry has not aged out) and no more than \<open>SEEN_MAX\<close> deliveries have followed it (the
  entry has not been evicted for capacity).  So among the deliveries of the hash in the
  window exactly one, the first, is processed.
\<close>

theorem C2_dedup_once:
  assumes "distinct (map fst m)"
    and "\<not> seen_has h (cleanupSeen now m)"
    and "\<forall>d \<in> set ds. fst d - now \<le> SEEN_TTL_MS"
    and "length ds \<le> SEEN_MAX"
  shows "deliveries m ((now, h) # ds) ! 0 = Processed
       \<and> seen_has h (snd (handleTrace_gate now h m))
       \<and> retained h (snd (handleTrace_gate now h m)) ds
       \<and> (\<forall>i. i < length ds \<and> snd (ds ! i) = h \<longrightarrow>
             deliveries m ((now, h) # ds) ! Suc i = Dropped)
       \<and> length (filter (\<lambda>p. snd (fst p) = h \<and> snd p = Processed)
             (zip ((now, h) # ds) (deliveries m ((now, h) # ds)))) = 1"
proof -
  let ?m' = "snd (handleTrace_gate now h m)"
  have first: "fst (handleTrace_gate now h m) = Processed"
    using assms(2) by (simp add: handleTrace_gate_def Let_def)
  have entered: "seen_has h ?m'"
    using assms(2) by (simp add: handleTrace_gate_def Let_def seen_has_seen_set)
  have shape: "?m' = cleanupSeen now m @ (h, now) # []"
    using assms(2) seen_set_fresh[of h "cleanupSeen now m" now]
    by (simp add: handleTrace_gate_def Let_def seen_has_def)
  have dist: "distinct (map fst ?m')"
    using handleTrace_gate_distinct[OF assms(1)] .
  have window: "retained h ?m' ds"
    using retained_from_window[OF dist shape assms(3)] assms(4) by simp
  have later: "\<forall>i. i < length ds \<and> snd (ds ! i) = h \<longrightarrow> deliveries ?m' ds ! i = Dropped"
    using retained_dropped[OF window] by blast
  have len: "length (deliveries ?m' ds) = length ds"
    by (rule length_deliveries)
  have "filter (\<lambda>p. snd (fst p) = h \<and> snd p = Processed) (zip ds (deliveries ?m' ds)) = []"
  proof -
    have "\<And>p. p \<in> set (zip ds (deliveries ?m' ds)) \<Longrightarrow> \<not> (snd (fst p) = h \<and> snd p = Processed)"
    proof
      fix p assume p: "p \<in> set (zip ds (deliveries ?m' ds))"
        and hp: "snd (fst p) = h \<and> snd p = Processed"
      from p obtain i where i: "i < length ds" "p = (ds ! i, deliveries ?m' ds ! i)"
        using len by (auto simp: set_zip)
      with hp later show False by auto
    qed
    then show ?thesis by (simp add: filter_empty_conv)
  qed
  then show ?thesis using first entered window later by simp
qed

theorem C2_dedup_once_witness:
  "distinct (map fst ([] :: seen_map))
   \<and> \<not> seen_has ''a'' (cleanupSeen 0 [])
   \<and> 1000 - 0 \<le> SEEN_TTL_MS \<and> 2000 - 0 \<le> SEEN_TTL_MS
   \<and> length [(1000 :: int, ''b''), (2000, ''a'')] \<le> SEEN_MAX
   \<and> deliveries [] [(0, ''a''), (1000, ''b''), (2000, ''a'')] = [Processed, Processed, Dropped]
   \<and> deliveries [] [(0, ''a''), (700000, ''a'')] = [Processed, Processed]"
  using C2_dedup_once [of "[]" "''a''" 0 "[(1000, ''b''), (2000, ''a'')]"]
  by (simp add: handleTrace_gate_def cleanupSeen_def seen_has_def seen_delete_def
      SEEN_TTL_MS_def SEEN_MAX_def)

subsection \<open>Amount normalization\<close>

lemma isFinite_div_1e9: "isFinite (div_1e9 v) = isFinite v"
  by (cases v) simp_all

lemma toTon_result_finite: "toTon v = Inr (Some r) \<Longrightarrow> isFinite r"
proof (induction v rule: toTon.induct)
  case (1 v)
  then show ?case by (auto simp: isFinite_div_1e9 split: if_splits)
next
  case (2 s)
  then show ?case
    by (auto simp: Let_def isFinite_div_1e9 split: if_splits)
next
  case (3 kvs)
  then show ?case
    by (auto simp: bindE_def split: option.splits jsval.splits)
next
  case (4 vs)
  then show ?case by (simp add: bindE_def)
qed simp_all

lemma toTon_twice_fixed:
  assumes "toTon v = Inr (Some r)" and "js_le r (Fin 1000000)"
  shows "toTon_twice v = toTon v"
proof -
  obtain x where x: "r = Fin x" using toTon_result_finite[OF assms(1)] by (cases r) auto
  then have "x \<le> 1000000" using assms(2) by auto
  then show ?thesis using assms(1) x by (simp add: toTon_twice_def bindE_def js_gt_def)
qed

text \<open>
  C4, as stated, fails.  A sale of \<open>2,000,000\<close> TON in the smallest unit: the first normalization gives
  \<open>2,000,000\<close>, which is above the threshold, and the second divides again.
\<close>

theorem C4_toTon_twice_counterexample:
  "toTon (Num (Fin 2000000000000000)) = Inr (Some (Fin 2000000))
   \<and> toTon_twice (Num (Fin 2000000000000000)) = Inr (Some (Fin (1 / 500)))
   \<and> toTon_twice (Num (Fin 2000000000000000)) \<noteq> toTon (Num (Fin 2000000000000000))
   \<and> toTonMaybe (toTonMaybe (Fin 2000000000000000)) \<noteq> toTonMaybe (Fin 2000000000000000)"
  by (simp add: toTon_twice_def bindE_def js_gt_def toTonMaybe_def)

text \<open>
  C4 (amended).  Normalizing twice is normalizing once for every finite number, and every
  numeric string, of value at most \<open>10^15\<close>, and whenever the first result is at most the
  threshold \<open>1,000,000\<close>; a value at or below the threshold is returned unchanged.
\<close>

theorem C4_toTon_idempotent_below_1e15:
  "(x \<le> 1000000000000000 \<longrightarrow>
      toTon_twice (Num (Fin x)) = toTon (Num (Fin x))
      \<and> toTonMaybe (toTonMaybe (Fin x)) = toTonMaybe (Fin x))
   \<and> (Number_string s = Fin x \<and> x \<le> 1000000000000000 \<longrightarrow>
        toTon_twice (Str s) = toTon (Str s))
   \<and> (x \<le> 1000000 \<longrightarrow>
        toTon (Num (Fin x)) = Inr (Some (Fin x)) \<and> toTonMaybe (Fin x) = Fin x)
   \<and> (toTon v = Inr None \<longrightarrow> toTon_twice v = toTon v)
   \<and> (toTon v = Inr (Some r) \<and> js_le r (Fin 1000000) \<longrightarrow> toTon_twice v = toTon v)"
proof -
  have num: "toTon_twice (Num (Fin x)) = toTon (Num (Fin x))" if "x \<le> 1000000000000000"
    using that by (simp add: toTon_twice_def bindE_def js_gt_def)
  have maybe: "toTonMaybe (toTonMaybe (Fin x)) = toTonMaybe (Fin x)" if "x \<le> 1000000000000000"
    using that by (simp add: toTonMaybe_def js_gt_def)
  have str: "toTon_twice (Str s) = toTon (Str s)"
    if "Number_string s = Fin x" and "x \<le> 1000000000000000"
    using that by (simp add: toTon_twice_def bindE_def js_gt_def Let_def)
  have small: "toTon (Num (Fin x)) = Inr (Some (Fin x)) \<and> toTonMaybe (Fin x) = Fin x"
    if "x \<le> 1000000"
    using that by (simp add: js_gt_def toTonMaybe_def)
  have none: "toTon_twice v = toTon v" if "toTon v = Inr None"
    using that by (simp add: toTon_twice_def bindE_def)
  show ?thesis using num maybe str small none toTon_twice_fixed[of v r] by blast
qed

theorem C4_toTon_idempotent_below_1e15_witness:
  "(5000000000::real) \<le> 1000000000000000
   \<and> toTon (Num (Fin 5000000000)) = Inr (Some (Fin 5))
   \<and> toTon_twice (Num (Fin 5000000000)) = Inr (Some (Fin 5))
   \<and> toTonMaybe (toTonMaybe (Fin 5000000000)) = Fin 5
   \<and> toTon (Num (Fin 7)) = Inr (Some (Fin 7))"
  using C4_toTon_idempotent_below_1e15 [of 5000000000 "''5000000000''" "Undefined" "Fin 0"]
    C4_toTon_idempotent_below_1e15 [of 7 "''7''" "Undefined" "Fin 0"]
  by (simp add: js_gt_def toTonMaybe_def)

subsection \<open>The preference matcher\<close>

lemma js_lt_Fin_finite: "isFinite b \<Longrightarrow> js_lt (Fin p) b = (\<exists>x. b = Fin x \<and> p < x)"
  by (cases b) simp_all

lemma js_gt_Fin_finite: "isFinite b \<Longrightarrow> js_gt (Fin p) b = (\<exists>x. b = Fin x \<and> x < p)"
  by (cases b) (simp_all add: js_gt_def)

lemma isFinite_iff: "isFinite v = (\<exists>x. v = Fin x)"
  by (cases v) simp_all

lemma matchesFilters_Some:
  "matchesFilters listing (Some f) =
     (tab f = ''listing''
      \<and> (\<exists>p. priceTon listing = Some (Fin p)
            \<and> (\<forall>lo. minTon f = Fin lo \<longrightarrow> lo \<le> p)
            \<and> (\<forall>hi. maxTon f = Fin hi \<longrightarrow> p \<le> hi))
      \<and> (models f = []
          \<or> (\<exists>m. model listing = Some m \<and> m \<noteq> []
                \<and> toLowerCase m \<in> toLowerCase ` set (models f))))"
proof (cases "priceTon listing")
  case None
  then show ?thesis by (simp add: matchesFilters_def)
next
  case (Some price)
  show ?thesis
  proof (cases price)
    case (Fin p)
    have lo: "(isFinite (minTon f) \<and> js_lt (Fin p) (minTon f)) = (\<not> (\<forall>lo. minTon f = Fin lo \<longrightarrow> lo \<le> p))"
      by (cases "minTon f") auto
    have hi: "(isFinite (maxTon f) \<and> js_gt (Fin p) (maxTon f)) = (\<not> (\<forall>hi. maxTon f = Fin hi \<longrightarrow> p \<le> hi))"
      by (cases "maxTon f") (auto simp: js_gt_def)
    show ?thesis
      unfolding matchesFilters_def using Some Fin lo hi
      by (cases "model listing") (auto simp: image_iff)
  next
    case PosInf
    then show ?thesis using Some by (simp add: matchesFilters_def)
  next
    case NegInf
    then show ?thesis using Some by (simp add: matchesFilters_def)
  next
    case NaN
    then show ?thesis using Some by (simp add: matchesFilters_def)
  qed
qed

lemma matches_as_specified_finite:
  assumes "minTon f = Fin lo" and "maxTon f = Fin hi"
  shows "matches_as_specified listing f =
     (tab f = ''listing''
      \<and> (\<exists>p. priceTon listing = Some (Fin p) \<and> lo \<le> p \<and> p \<le> hi)
      \<and> (models f = []
          \<or> (\<exists>m. model listing = Some m \<and> toLowerCase m \<in> toLowerCase ` set (models f))))"
proof -
  have price: "(case priceTon listing of None \<Rightarrow> False
                | Some p \<Rightarrow> isFinite p \<and> js_le (minTon f) p \<and> js_le p (maxTon f))
      = (\<exists>p. priceTon listing = Some (Fin p) \<and> lo \<le> p \<and> p \<le> hi)"
  proof (cases "priceTon listing")
    case None
    then show ?thesis by simp
  next
    case (Some v)
    then show ?thesis using assms by (cases v) auto
  qed
  have mdl: "(case model listing of None \<Rightarrow> False
              | Some m \<Rightarrow> toLowerCase m \<in> set (map toLowerCase (models f)))
      = (\<exists>m. model listing = Some m \<and> toLowerCase m \<in> toLowerCase ` set (models f))"
    by (cases "model listing") auto
  show ?thesis unfolding matches_as_specified_def price mdl by simp
qed

text \<open>
  C1, as stated, fails.  A lower bound of \<open>Infinity\<close>, or an upper bound of \<open>NaN\<close>, is skipped by the
  matcher, while \<open>minTon <= p <= maxTon\<close> is false for it.
\<close>

theorem C1_matchesFilters_counterexample:
  "matchesFilters
     \<lparr>nftAddress = ''A1'', priceTon = Some (Fin 5), marketAccount = None,
      marketLabel = ''Fragment'', model = None, background = None, number = None,
      collectionAddress = None, imageUrl = None\<rparr>
     (Some \<lparr>tab = ''listing'', minTon = PosInf, maxTon = Fin 10, models = []\<rparr>)
   \<and> \<not> matches_as_specified
     \<lparr>nftAddress = ''A1'', priceTon = Some (Fin 5), marketAccount = None,
      marketLabel = ''Fragment'', model = None, background = None, number = None,
      collectionAddress = None, imageUrl = None\<rparr>
     \<lparr>tab = ''listing'', minTon = PosInf, maxTon = Fin 10, models = []\<rparr>
   \<and> matchesFilters
     \<lparr>nftAddress = ''A1'', priceTon = Some (Fin 5), marketAccount = None,
      marketLabel = ''Fragment'', model = None, background = None, number = None,
      collectionAddress = None, imageUrl = None\<rparr>
     (Some \<lparr>tab = ''listing'', minTon = Fin 0, maxTon = NaN, models = []\<rparr>)
   \<and> \<not> matches_as_specified
     \<lparr>nftAddress = ''A1'', priceTon = Some (Fin 5), marketAccount = None,
      marketLabel = ''Fragment'', model = None, background = None, number = None,
      collectionAddress = None, imageUrl = None\<rparr>
     \<lparr>tab = ''listing'', minTon = Fin 0, maxTon = NaN, models = []\<rparr>"
  by (simp add: matchesFilters_def matches_as_specified_def js_gt_def)

text \<open>
  C1 (amended).  Absent filters match every listing.  Present filters match exactly when
  the mode is \<open>listing\<close>, the price is a finite number \<open>p\<close>, every bound that is a finite
  number holds (\<open>minTon <= p\<close>, \<open>p <= maxTon\<close>; a bound that is not finite is skipped), and
  the model list is empty or the listing has a non-empty model that is in the list when
  both are lower-cased.  With finite bounds and a listing whose model is not the empty
  string this is the matcher as specified.
\<close>

theorem C1_matchesFilters_amended:
  "matchesFilters listing None
   \<and> (matchesFilters listing (Some f) =
        (tab f = ''listing''
         \<and> (\<exists>p. priceTon listing = Some (Fin p)
               \<and> (\<forall>lo. minTon f = Fin lo \<longrightarrow> lo \<le> p)
               \<and> (\<forall>hi. maxTon f = Fin hi \<longrightarrow> p \<le> hi))
         \<and> (models f = []
             \<or> (\<exists>m. model listing = Some m \<and> m \<noteq> []
                   \<and> toLowerCase m \<in> toLowerCase ` set (models f)))))
   \<and> (isFinite (minTon f) \<and> isFinite (maxTon f) \<and> model listing \<noteq> Some [] \<longrightarrow>
        matchesFilters listing (Some f) = matches_as_specified listing f)"
proof -
  have absent: "matchesFilters listing None"
    by (simp add: matchesFilters_def)
  have agree: "matchesFilters listing (Some f) = matches_as_specified listing f"
    if fin: "isFinite (minTon f)" "isFinite (maxTon f)" and ne: "model listing \<noteq> Some []"
  proof -
    obtain lo hi where b: "minTon f = Fin lo" "maxTon f = Fin hi"
      using fin by (auto simp: isFinite_iff)
    show ?thesis
      unfolding matchesFilters_Some matches_as_specified_finite[OF b]
      using b ne by auto
  qed
  show ?thesis using absent agree matchesFilters_Some[of listing f] by blast
qed

theorem C1_matchesFilters_amended_witness:
  "isFinite (Fin 0) \<and> isFinite (Fin 10)
   \<and> matchesFilters
       \<lparr>nftAddress = ''A1'', priceTon = Some (Fin 5), marketAccount = None,
        marketLabel = ''Fragment'', model = Some ''Plush Pepe'', background = None, number = None,
        collectionAddress = None, imageUrl = None\<rparr>
       (Some \<lparr>tab = ''listing'', minTon = Fin 0, maxTon = Fin 10, models = [''plush pepe'']\<rparr>)
   \<and> matches_as_specified
       \<lparr>nftAddress = ''A1'', priceTon = Some (Fin 5), marketAccount = None,
        marketLabel = ''Fragment'', model = Some ''Plush Pepe'', background = None, number = None,
        collectionAddress = None, imageUrl = None\<rparr>
       \<lparr>tab = ''listing'', minTon = Fin 0, maxTon = Fin 10, models = [''plush pepe'']\<rparr>"
  using C1_matchesFilters_amended
    [of "\<lparr>nftAddress = ''A1'', priceTon = Some (Fin 5), marketAccount = None,
        marketLabel = ''Fragment'', model = Some ''Plush Pepe'', background = None, number = None,
        collectionAddress = None, imageUrl = None\<rparr>"
        "\<lparr>tab = ''listing'', minTon = Fin 0, maxTon = Fin 10, models = [''plush pepe'']\<rparr>"]
  by (simp add: matchesFilters_def matches_as_specified_def js_gt_def
      toLowerCase_def toLowerCase_char_def)

subsection \<open>The alert dispatcher\<close>

text \<open>
  C5.  \<open>sendTelegramAlert\<close> rejects exactly when it makes the text send and that send
  fails.  With a photo URL and a successful photo send it makes the photo call only and
  returns normally; a failed photo send is followed by the text send and decides nothing;
  without a photo URL the text send is the only call.
\<close>

theorem C5_sendTelegramAlert_errors:
  "(isl (fst (sendTelegramAlert opts photo_res text_res)) =
      (SendMessage \<in> set (snd (sendTelegramAlert opts photo_res text_res)) \<and> send_failed text_res))
   \<and> (\<not> falsy_string (photoUrl opts) \<and> \<not> send_failed photo_res \<longrightarrow>
        sendTelegramAlert opts photo_res text_res = (Inr (), [SendPhoto]))
   \<and> (\<not> falsy_string (photoUrl opts) \<and> send_failed photo_res \<longrightarrow>
        snd (sendTelegramAlert opts photo_res text_res) = [SendPhoto, SendMessage]
        \<and> isl (fst (sendTelegramAlert opts photo_res text_res)) = send_failed text_res)
   \<and> (falsy_string (photoUrl opts) \<longrightarrow>
        snd (sendTelegramAlert opts photo_res text_res) = [SendMessage]
        \<and> isl (fst (sendTelegramAlert opts photo_res text_res)) = send_failed text_res)"
proof -
  have photo: "(sendPhoto_try photo_res = Inr ()) = (\<not> send_failed photo_res)"
    by (cases photo_res) (simp_all add: sendPhoto_try_def send_failed_def)
  have has: "(case photoUrl opts of None \<Rightarrow> False | Some u \<Rightarrow> u \<noteq> []) = (\<not> falsy_string (photoUrl opts))"
    by (cases "photoUrl opts") (simp_all add: falsy_string_def)
  show ?thesis
    unfolding sendTelegramAlert_def has photo Let_def
    by (cases text_res) (simp_all add: send_failed_def)
qed

theorem C5_sendTelegramAlert_errors_witness:
  "sendTelegramAlert
     \<lparr>caption = ''c'', photoUrl = Some ''https://x/p.png'', buyUrl = ''u'', buyButtonText = ''b'',
      openInTelegramUrl = ''t''\<rparr> (Response False None) (Response True None)
     = (Inr (), [SendPhoto, SendMessage])
   \<and> sendTelegramAlert
     \<lparr>caption = ''c'', photoUrl = Some ''https://x/p.png'', buyUrl = ''u'', buyButtonText = ''b'',
      openInTelegramUrl = ''t''\<rparr> FetchThrows (Response False None)
     = (Inl (Error ''Telegram sendMessage failed''), [SendPhoto, SendMessage])
   \<and> sendTelegramAlert
     \<lparr>caption = ''c'', photoUrl = Some ''https://x/p.png'', buyUrl = ''u'', buyButtonText = ''b'',
      openInTelegramUrl = ''t''\<rparr> (Response True None) FetchThrows
     = (Inr (), [SendPhoto])
   \<and> send_failed (Response False None) \<and> \<not> send_failed (Response True None)"
  using C5_sendTelegramAlert_errors
    [of "\<lparr>caption = ''c'', photoUrl = Some ''https://x/p.png'', buyUrl = ''u'', buyButtonText = ''b'',
      openInTelegramUrl = ''t''\<rparr>" "Response False None" "Response True None"]
  by (simp add: sendTelegramAlert_def sendPhoto_try_def send_failed_def)

subsection \<open>The per-asset model cache\<close>

lemma lookup_failed_Null: "lookup_failed r \<Longrightarrow> tonapiGetNftItemByAddress r = Null"
  by (cases r) (auto simp: lookup_failed_def tonapiGetNftItemByAddress_def)

lemma extractFromNftItem_model_Null: "extractFromNftItem_model Null = Inr None"
  by (simp add: extractFromNftItem_model_def)

text \<open>
  C3, as stated, fails.  The metadata fetch rejects and the cache is empty: the call leaves an entry for the
  asset that records the absence of a model.
\<close>

theorem C3_negative_entry_counterexample:
  "lookup_failed FetchThrows
   \<and> tonapiGetNftItemByAddress FetchThrows = Null
   \<and> snd (getModelByNftAddressCached 1000 (\<lambda>a. FetchThrows) ''EQabc'' (\<lambda>a. None)) ''EQabc''
       = Some \<lparr>entry_at = 1000, entry_model = None\<rparr>
   \<and> snd (getModelByNftAddressCached 1000 (\<lambda>a. FetchThrows) ''EQabc'' (\<lambda>a. None))
       \<noteq> (\<lambda>a. None)"
proof -
  have e: "snd (getModelByNftAddressCached 1000 (\<lambda>a. FetchThrows) ''EQabc'' (\<lambda>a. None)) ''EQabc''
       = Some \<lparr>entry_at = 1000, entry_model = None\<rparr>"
    by (simp add: getModelByNftAddressCached_def tonapiGetNftItemByAddress_def
        extractFromNftItem_model_def)
  then have "snd (getModelByNftAddressCached 1000 (\<lambda>a. FetchThrows) ''EQabc'' (\<lambda>a. None))
       \<noteq> (\<lambda>a. None)"
    by (metis option.distinct(1))
  then show ?thesis using e
    by (simp add: lookup_failed_def tonapiGetNftItemByAddress_def)
qed

text \<open>
  C3 (amended).  On a cache miss (no entry, or an entry as old as the TTL)
  \<open>getModelByNftAddressCached\<close> writes an entry stamped \<open>now\<close> whatever the lookup did:
  when the lookup fails the entry records the absence of a model, as it does after a
  successful lookup whose payload has no model.  A fresh entry is returned as it is and
  the cache is left alone.
\<close>

theorem C3_cache_written_on_every_miss:
  "((cache a = None \<or> (\<exists>c. cache a = Some c \<and> \<not> now - entry_at c < NFT_MODEL_CACHE_TTL_MS)) \<and>
    lookup_failed (nfts a) \<longrightarrow>
      getModelByNftAddressCached now nfts a cache
        = (Inr None, cache(a \<mapsto> \<lparr>entry_at = now, entry_model = None\<rparr>)))
   \<and> ((cache a = None \<or> (\<exists>c. cache a = Some c \<and> \<not> now - entry_at c < NFT_MODEL_CACHE_TTL_MS)) \<and>
    extractFromNftItem_model (tonapiGetNftItemByAddress (nfts a)) = Inr m \<longrightarrow>
      getModelByNftAddressCached now nfts a cache
        = (Inr m, cache(a \<mapsto> \<lparr>entry_at = now, entry_model = m\<rparr>)))
   \<and> (cache a = Some c \<and> now - entry_at c < NFT_MODEL_CACHE_TTL_MS \<longrightarrow>
      getModelByNftAddressCached now nfts a cache = (Inr (entry_model c), cache))"
proof -
  have failed: "getModelByNftAddressCached now nfts a cache
        = (Inr None, cache(a \<mapsto> \<lparr>entry_at = now, entry_model = None\<rparr>))"
    if "cache a = None \<or> (\<exists>c. cache a = Some c \<and> \<not> now - entry_at c < NFT_MODEL_CACHE_TTL_MS)"
      and "lookup_failed (nfts a)"
    using that
    by (auto simp: getModelByNftAddressCached_def lookup_failed_Null extractFromNftItem_model_Null)
  have miss: "getModelByNftAddressCached now nfts a cache
        = (Inr m, cache(a \<mapsto> \<lparr>entry_at = now, entry_model = m\<rparr>))"
    if "cache a = None \<or> (\<exists>c. cache a = Some c \<and> \<not> now - entry_at c < NFT_MODEL_CACHE_TTL_MS)"
      and "extractFromNftItem_model (tonapiGetNftItemByAddress (nfts a)) = Inr m"
    using that by (auto simp: getModelByNftAddressCached_def)
  have hit: "getModelByNftAddressCached now nfts a cache = (Inr (entry_model c), cache)"
    if "cache a = Some c" and "now - entry_at c < NFT_MODEL_CACHE_TTL_MS"
    using that by (simp add: getModelByNftAddressCached_def)
  show ?thesis using failed miss hit by blast
qed

theorem C3_cache_written_on_every_miss_witness:
  "lookup_failed (Response False None)
   \<and> getModelByNftAddressCached 1000 (\<lambda>a. Response False None) ''EQabc'' (\<lambda>a. None)
       = (Inr None, (\<lambda>a. None)(''EQabc'' \<mapsto> \<lparr>entry_at = 1000, entry_model = None\<rparr>))
   \<and> fst (getModelByNftAddressCached 1000
         (\<lambda>a. Response True (Some (Obj [(''metadata'', Obj [(''name'', Str ''Plush Pepe'')])])))
         ''EQabc'' (\<lambda>a. None))
       = Inr (Some ''Plush Pepe'')"
  using C3_cache_written_on_every_miss
    [of "\<lambda>a. None" "''EQabc''" 1000 "\<lambda>a. Response False None" None
        "\<lparr>entry_at = 0, entry_model = None\<rparr>"]
  by (simp add: lookup_failed_def getModelByNftAddressCached_def tonapiGetNftItemByAddress_def
      extractFromNftItem_model_def bindE_def nullish_def)

subsection \<open>The payload extractors\<close>

lemma get_truthy: "truthy node \<Longrightarrow> \<exists>v. get node k = Inr v"
  by (cases node) simp_all

lemma has_in_object:
  "truthy node \<Longrightarrow> typeof node = ''object'' \<Longrightarrow> \<exists>b. has_in k node = Inr b"
  by (cases node) auto

lemma for_of_array: "isArray node \<Longrightarrow> \<exists>vs. for_of node = Inr vs"
  by (cases node) simp_all

lemma Object_entries_truthy: "truthy node \<Longrightarrow> \<exists>kvs. Object_entries node = Inr kvs"
  by (cases node) simp_all

lemma Object_values_truthy: "truthy node \<Longrightarrow> \<exists>vs. Object_values node = Inr vs"
  using Object_entries_truthy[of node] by (auto simp: Object_values_def bindE_def)

lemma toTon_total: "\<exists>r. toTon v = Inr r"
proof (cases v)
  case (Obj kvs)
  then show ?thesis by (auto simp: bindE_def Let_def split: option.splits jsval.splits)
next
  case (Str s)
  then show ?thesis by (simp add: Let_def)
qed (simp_all add: bindE_def)

lemma extractAddressFromNode_total: "\<exists>r. extractAddressFromNode node = Inr r"
proof (cases "truthy node")
  case False
  then show ?thesis by (simp add: extractAddressFromNode_def)
next
  case True
  obtain a b c where "get node ''address'' = Inr a" "get node ''account_id'' = Inr b"
    "get node ''owner'' = Inr c"
    using get_truthy[OF True] by blast
  then show ?thesis by (simp add: extractAddressFromNode_def bindE_def)
qed

lemma findFirstStringByKeys_direct_total:
  "truthy obj \<Longrightarrow> \<exists>r. findFirstStringByKeys_direct obj keys = Inr r"
proof (induction keys)
  case Nil
  show ?case by simp
next
  case (Cons key keys)
  obtain v where "get obj key = Inr v" using get_truthy[OF Cons.prems] by blast
  then show ?case using Cons.IH[OF Cons.prems] by (simp add: bindE_def)
qed

lemma findFirstNumberLike_direct_total:
  "truthy obj \<Longrightarrow> typeof obj = ''object'' \<Longrightarrow> \<exists>r. findFirstNumberLike_direct obj keys = Inr r"
proof (induction keys)
  case Nil
  show ?case by simp
next
  case (Cons key keys)
  obtain b where b: "has_in key obj = Inr b" using has_in_object[OF Cons.prems] by blast
  obtain v where v: "get obj key = Inr v" using get_truthy[OF Cons.prems(1)] by blast
  obtain t where t: "toTon v = Inr t" using toTon_total by blast
  show ?case using b v t Cons.IH[OF Cons.prems]
    by (cases t) (simp_all add: bindE_def)
qed

lemma findFirstAddressByKeys_direct_total:
  "truthy obj \<Longrightarrow> typeof obj = ''object'' \<Longrightarrow> \<exists>r. findFirstAddressByKeys_direct obj keys = Inr r"
proof (induction keys)
  case Nil
  show ?case by simp
next
  case (Cons key keys)
  obtain b where b: "has_in key obj = Inr b" using has_in_object[OF Cons.prems] by blast
  obtain v where v: "get obj key = Inr v" using get_truthy[OF Cons.prems(1)] by blast
  obtain t where t: "extractAddressFromNode v = Inr t" using extractAddressFromNode_total by blast
  show ?case using b v t Cons.IH[OF Cons.prems]
    by (simp add: bindE_def)
qed

lemma findFirstStringByKeys_total:
  "\<exists>r. findFirstStringByKeys node keys = Inr r"
  "\<exists>r. findFirstStringByKeys_loop vs keys = Inr r"
proof (induction node keys and vs keys rule: findFirstStringByKeys_findFirstStringByKeys_loop.induct)
  case (1 node keys)
  show ?case
  proof (cases "truthy node \<and> (isArray node \<or> typeof node = ''object'')")
    case False
    then show ?thesis by auto
  next
    case True
    then have t: "truthy node" by simp
    show ?thesis
    proof (cases "isArray node")
      case True
      then obtain vs where vs: "for_of node = Inr vs" using for_of_array by blast
      then show ?thesis using t True "1.IH"(1)[OF _ True vs] by (simp add: bindE_def)
    next
      case False
      then have ob: "typeof node = ''object''" using True by simp
      obtain d where d: "findFirstStringByKeys_direct node keys = Inr d"
        using findFirstStringByKeys_direct_total[OF t] by blast
      obtain vs where vs: "Object_values node = Inr vs" using Object_values_truthy[OF t] by blast
      show ?thesis
      proof (cases d)
        case None
        then show ?thesis using t False ob d vs "1.IH"(2)[OF _ False _ d None vs]
          by (simp add: bindE_def)
      next
        case (Some s)
        then show ?thesis using t False ob d by (simp add: bindE_def)
      qed
    qed
  qed
next
  case (2 keys)
  show ?case by simp
next
  case (3 v vs keys)
  obtain found where f: "findFirstStringByKeys v keys = Inr found" using "3.IH"(1) by blast
  show ?case using f "3.IH"(2)[OF f] by (simp add: bindE_def)
qed

lemma findFirstNumberLike_total:
  "\<exists>r. findFirstNumberLike node keys = Inr r"
  "\<exists>r. findFirstNumberLike_loop vs keys = Inr r"
proof (induction node keys and vs keys rule: findFirstNumberLike_findFirstNumberLike_loop.induct)
  case (1 node keys)
  show ?case
  proof (cases "truthy node \<and> (isArray node \<or> typeof node = ''object'')")
    case False
    then show ?thesis by auto
  next
    case True
    then have t: "truthy node" by simp
    show ?thesis
    proof (cases "isArray node")
      case True
      then obtain vs where vs: "for_of node = Inr vs" using for_of_array by blast
      then show ?thesis using t True "1.IH"(1)[OF _ True vs] by (simp add: bindE_def)
    next
      case False
      then have ob: "typeof node = ''object''" using True by simp
      obtain d where d: "findFirstNumberLike_direct node keys = Inr d"
        using findFirstNumberLike_direct_total[OF t ob] by blast
      obtain vs where vs: "Object_values node = Inr vs" using Object_values_truthy[OF t] by blast
      show ?thesis
      proof (cases d)
        case None
        then show ?thesis using t False ob d vs "1.IH"(2)[OF _ False _ d None vs]
          by (simp add: bindE_def)
      next
        case (Some n)
        then show ?thesis using t False ob d by (simp add: bindE_def)
      qed
    qed
  qed
next
  case (2 keys)
  show ?case by simp
next
  case (3 v vs keys)
  obtain found where f: "findFirstNumberLike v keys = Inr found" using "3.IH"(1) by blast
  show ?case using f "3.IH"(2)[OF f] by (simp add: bindE_def)
qed

lemma findFirstAddressByKeys_total:
  "\<exists>r. findFirstAddressByKeys node keys = Inr r"
  "\<exists>r. findFirstAddressByKeys_loop vs keys = Inr r"
proof (induction node keys and vs keys rule: findFirstAddressByKeys_findFirstAddressByKeys_loop.induct)
  case (1 node keys)
  show ?case
  proof (cases "truthy node \<and> (isArray node \<or> typeof node = ''object'')")
    case False
    then show ?thesis by auto
  next
    case True
    then have t: "truthy node" by simp
    show ?thesis
    proof (cases "isArray node")
      case True
      then obtain vs where vs: "for_of node = Inr vs" using for_of_array by blast
      then show ?thesis using t True "1.IH"(1)[OF _ True vs] by (simp add: bindE_def)
    next
      case False
      then have ob: "typeof node = ''object''" using True by simp
      obtain d where d: "findFirstAddressByKeys_direct node keys = Inr d"
        using findFirstAddressByKeys_direct_total[OF t ob] by blast
      obtain vs where vs: "Object_values node = Inr vs" using Object_values_truthy[OF t] by blast
      show ?thesis
      proof (cases d)
        case None
        then show ?thesis using t False ob d vs "1.IH"(2)[OF _ False _ d None vs]
          by (simp add: bindE_def)
      next
        case (Some s)
        then show ?thesis using t False ob d by (simp add: bindE_def)
      qed
    qed
  qed
next
  case (2 keys)
  show ?case by simp
next
  case (3 v vs keys)
  obtain found where f: "findFirstAddressByKeys v keys = Inr found" using "3.IH"(1) by blast
  show ?case using f "3.IH"(2)[OF f] by (simp add: bindE_def)
qed


lemma findAllStringsByKey_total:
  "\<exists>r. findAllStringsByKey node key out = Inr r"
  "\<exists>r. findAllStringsByKey_array vs key out = Inr r"
  "\<exists>r. findAllStringsByKey_entries es key out = Inr r"
proof (induction node key out and vs key out and es key out
    rule: findAllStringsByKey_findAllStringsByKey_array_findAllStringsByKey_entries.induct)
  case (1 node key out)
  show ?case
  proof (cases "truthy node \<and> (isArray node \<or> typeof node = ''object'')")
    case False
    then show ?thesis by auto
  next
    case True
    then have t: "truthy node" by simp
    show ?thesis
    proof (cases "isArray node")
      case True
      then obtain vs where vs: "for_of node = Inr vs" using for_of_array by blast
      then show ?thesis using t True "1.IH"(1)[OF _ True vs] by (simp add: bindE_def)
    next
      case False
      then have ob: "typeof node = ''object''" using True by simp
      obtain kvs where kvs: "Object_entries node = Inr kvs"
        using Object_entries_truthy[OF t] by blast
      show ?thesis using t False ob kvs "1.IH"(2)[OF _ False _ kvs] by (simp add: bindE_def)
    qed
  qed
next
  case (2 key out)
  show ?case by simp
next
  case (3 v vs key out)
  obtain out' where f: "findAllStringsByKey v key out = Inr out'" using "3.IH"(1) by blast
  show ?case using f "3.IH"(2)[OF f] by (simp add: bindE_def)
next
  case (4 key out)
  show ?case by simp
next
  case (5 e es key out)
  let ?out1 = "if fst e = key \<and> typeof (snd e) = ''string'' then out @ [the_string (snd e)] else out"
  obtain out' where f: "findAllStringsByKey (snd e) key ?out1 = Inr out'" using "5.IH"(1) by blast
  show ?case using f "5.IH"(2)[OF f] by (simp add: bindE_def)
qed

lemma depth_nested: "depth (nested n) = Suc n"
  by (induction n) simp_all

lemma depth_entries_values: "depth_entries kvs = depth_list (map snd kvs)"
  by (induction kvs) simp_all

lemma depth_for_of: "isArray node \<Longrightarrow> for_of node = Inr vs \<Longrightarrow> depth node = Suc (depth_list vs)"
  by (cases node) simp_all

lemma depth_Object_values:
  "truthy node \<Longrightarrow> \<not> isArray node \<Longrightarrow> typeof node = ''object'' \<Longrightarrow>
   Object_values node = Inr vs \<Longrightarrow> depth node = Suc (depth_list vs)"
  by (cases node) (auto simp: Object_values_def bindE_def depth_entries_values)

lemma depth_Object_entries:
  "truthy node \<Longrightarrow> \<not> isArray node \<Longrightarrow> typeof node = ''object'' \<Longrightarrow>
   Object_entries node = Inr kvs \<Longrightarrow> depth node = Suc (depth_entries kvs)"
  by (cases node) auto

lemma depth_positive: "0 < depth node"
  by (cases node) simp_all

lemma findFirstStringByKeys_stack_cases:
  "findFirstStringByKeys_stack frames node keys = findFirstStringByKeys node keys
   \<or> findFirstStringByKeys_stack frames node keys = Inl RangeError \<and> frames < depth node"
  "findFirstStringByKeys_stack_loop frames vs keys = findFirstStringByKeys_loop vs keys
   \<or> findFirstStringByKeys_stack_loop frames vs keys = Inl RangeError \<and> frames < depth_list vs"
proof (induction frames node keys and frames vs keys
    rule: findFirstStringByKeys_stack_findFirstStringByKeys_stack_loop.induct)
  case (1 node keys)
  show ?case using depth_positive[of node] by simp
next
  case (2 frames node keys)
  show ?case
  proof (cases "truthy node \<and> (isArray node \<or> typeof node = ''object'')")
    case False
    then show ?thesis by auto
  next
    case True
    then have t: "truthy node" by simp
    show ?thesis
    proof (cases "isArray node")
      case True
      then obtain vs where vs: "for_of node = Inr vs" using for_of_array by blast
      show ?thesis
        using t True vs "2.IH"(1)[OF _ True vs] depth_for_of[OF True vs]
        by (auto simp: bindE_def)
    next
      case False
      then have ob: "typeof node = ''object''" using True by simp
      obtain d where d: "findFirstStringByKeys_direct node keys = Inr d"
        using findFirstStringByKeys_direct_total[OF t] by blast
      obtain vs where vs: "Object_values node = Inr vs" using Object_values_truthy[OF t] by blast
      show ?thesis
      proof (cases d)
        case None
        then show ?thesis
          using t False ob d vs "2.IH"(2)[OF _ False _ d None vs]
            depth_Object_values[OF t False ob vs]
          by (auto simp: bindE_def)
      next
        case (Some s)
        then show ?thesis using t False ob d by (simp add: bindE_def)
      qed
    qed
  qed
next
  case (3 frames keys)
  show ?case by simp
next
  case (4 frames v vs keys)
  obtain found where f: "findFirstStringByKeys v keys = Inr found"
    using findFirstStringByKeys_total(1) by blast
  from "4.IH"(1) show ?case
  proof
    assume eq: "findFirstStringByKeys_stack frames v keys = findFirstStringByKeys v keys"
    show ?thesis
    proof (cases "falsy_string found")
      case True
      then show ?thesis using eq f "4.IH"(2)[of found]
        by (auto simp: bindE_def less_max_iff_disj simp del: findFirstStringByKeys.simps)
    next
      case False
      then show ?thesis using eq f by (simp add: bindE_def del: findFirstStringByKeys.simps)
    qed
  next
    assume "findFirstStringByKeys_stack frames v keys = Inl RangeError \<and> frames < depth v"
    then show ?thesis
      by (simp add: bindE_def less_max_iff_disj del: findFirstStringByKeys.simps)
  qed
qed

lemma findFirstStringByKeys_stack_overflow: "findFirstStringByKeys_stack frames (nested frames) keys = Inl RangeError"
  by (induction frames) (simp_all add: bindE_def)

lemma findFirstNumberLike_stack_cases:
  "findFirstNumberLike_stack frames node keys = findFirstNumberLike node keys
   \<or> findFirstNumberLike_stack frames node keys = Inl RangeError \<and> frames < depth node"
  "findFirstNumberLike_stack_loop frames vs keys = findFirstNumberLike_loop vs keys
   \<or> findFirstNumberLike_stack_loop frames vs keys = Inl RangeError \<and> frames < depth_list vs"
proof (induction frames node keys and frames vs keys
    rule: findFirstNumberLike_stack_findFirstNumberLike_stack_loop.induct)
  case (1 node keys)
  show ?case using depth_positive[of node] by simp
next
  case (2 frames node keys)
  show ?case
  proof (cases "truthy node \<and> (isArray node \<or> typeof node = ''object'')")
    case False
    then show ?thesis by auto
  next
    case True
    then have t: "truthy node" by simp
    show ?thesis
    proof (cases "isArray node")
      case True
      then obtain vs where vs: "for_of node = Inr vs" using for_of_array by blast
      show ?thesis
        using t True vs "2.IH"(1)[OF _ True vs] depth_for_of[OF True vs]
        by (auto simp: bindE_def)
    next
      case False
      then have ob: "typeof node = ''object''" using True by simp
      obtain d where d: "findFirstNumberLike_direct node keys = Inr d"
        using findFirstNumberLike_direct_total[OF t ob] by blast
      obtain vs where vs: "Object_values node = Inr vs" using Object_values_truthy[OF t] by blast
      show ?thesis
      proof (cases d)
        case None
        then show ?thesis
          using t False ob d vs "2.IH"(2)[OF _ False _ d None vs]
            depth_Object_values[OF t False ob vs]
          by (auto simp: bindE_def)
      next
        case (Some s)
        then show ?thesis using t False ob d by (simp add: bindE_def)
      qed
    qed
  qed
next
  case (3 frames keys)
  show ?case by simp
next
  case (4 frames v vs keys)
  obtain found where f: "findFirstNumberLike v keys = Inr found"
    using findFirstNumberLike_total(1) by blast
  from "4.IH"(1) show ?case
  proof
    assume eq: "findFirstNumberLike_stack frames v keys = findFirstNumberLike v keys"
    show ?thesis
    proof (cases "found = None")
      case True
      then show ?thesis using eq f "4.IH"(2)[of found]
        by (auto simp: bindE_def less_max_iff_disj simp del: findFirstNumberLike.simps)
    next
      case False
      then show ?thesis using eq f by (simp add: bindE_def del: findFirstNumberLike.simps)
    qed
  next
    assume "findFirstNumberLike_stack frames v keys = Inl RangeError \<and> frames < depth v"
    then show ?thesis
      by (simp add: bindE_def less_max_iff_disj del: findFirstNumberLike.simps)
  qed
qed

lemma findFirstNumberLike_stack_overflow: "findFirstNumberLike_stack frames (nested frames) keys = Inl RangeError"
  by (induction frames) (simp_all add: bindE_def)

lemma findFirstAddressByKeys_stack_cases:
  "findFirstAddressByKeys_stack frames node keys = findFirstAddressByKeys node keys
   \<or> findFirstAddressByKeys_stack frames node keys = Inl RangeError \<and> frames < depth node"
  "findFirstAddressByKeys_stack_loop frames vs keys = findFirstAddressByKeys_loop vs keys
   \<or> findFirstAddressByKeys_stack_loop frames vs keys = Inl RangeError \<and> frames < depth_list vs"
proof (induction frames node keys and frames vs keys
    rule: findFirstAddressByKeys_stack_findFirstAddressByKeys_stack_loop.induct)
  case (1 node keys)
  show ?case using depth_positive[of node] by simp
next
  case (2 frames node keys)
  show ?case
  proof (cases "truthy node \<and> (isArray node \<or> typeof node = ''object'')")
    case False
    then show ?thesis by auto
  next
    case True
    then have t: "truthy node" by simp
    show ?thesis
    proof (cases "isArray node")
      case True
      then obtain vs where vs: "for_of node = Inr vs" using for_of_array by blast
      show ?thesis
        using t True vs "2.IH"(1)[OF _ True vs] depth_for_of[OF True vs]
        by (auto simp: bindE_def)
    next
      case False
      then have ob: "typeof node = ''object''" using True by simp
      obtain d where d: "findFirstAddressByKeys_direct node keys = Inr d"
        using findFirstAddressByKeys_direct_total[OF t ob] by blast
      obtain vs where vs: "Object_values node = Inr vs" using Object_values_truthy[OF t] by blast
      show ?thesis
      proof (cases d)
        case None
        then show ?thesis
          using t False ob d vs "2.IH"(2)[OF _ False _ d None vs]
            depth_Object_values[OF t False ob vs]
          by (auto simp: bindE_def)
      next
        case (Some s)
        then show ?thesis using t False ob d by (simp add: bindE_def)
      qed
    qed
  qed
next
  case (3 frames keys)
  show ?case by simp
next
  case (4 frames v vs keys)
  obtain found where f: "findFirstAddressByKeys v keys = Inr found"
    using findFirstAddressByKeys_total(1) by blast
  from "4.IH"(1) show ?case
  proof
    assume eq: "findFirstAddressByKeys_stack frames v keys = findFirstAddressByKeys v keys"
    show ?thesis
    proof (cases "falsy_string found")
      case True
      then show ?thesis using eq f "4.IH"(2)[of found]
        by (auto simp: bindE_def less_max_iff_disj simp del: findFirstAddressByKeys.simps)
    next
      case False
      then show ?thesis using eq f by (simp add: bindE_def del: findFirstAddressByKeys.simps)
    qed
  next
    assume "findFirstAddressByKeys_stack frames v keys = Inl RangeError \<and> frames < depth v"
    then show ?thesis
      by (simp add: bindE_def less_max_iff_disj del: findFirstAddressByKeys.simps)
  qed
qed

lemma findFirstAddressByKeys_stack_overflow: "findFirstAddressByKeys_stack frames (nested frames) keys = Inl RangeError"
  by (induction frames) (simp_all add: bindE_def)


lemma findAllStringsByKey_stack_cases:
  "findAllStringsByKey_stack frames node key out = findAllStringsByKey node key out
   \<or> findAllStringsByKey_stack frames node key out = Inl RangeError \<and> frames < depth node"
  "findAllStringsByKey_stack_array frames vs key out = findAllStringsByKey_array vs key out
   \<or> findAllStringsByKey_stack_array frames vs key out = Inl RangeError \<and> frames < depth_list vs"
  "findAllStringsByKey_stack_entries frames es key out = findAllStringsByKey_entries es key out
   \<or> findAllStringsByKey_stack_entries frames es key out = Inl RangeError
       \<and> frames < depth_entries es"
proof (induction frames node key out and frames vs key out and frames es key out
    rule: findAllStringsByKey_stack_findAllStringsByKey_stack_array_findAllStringsByKey_stack_entries.induct)
  case (1 node key out)
  show ?case using depth_positive[of node] by simp
next
  case (2 frames node key out)
  show ?case
  proof (cases "truthy node \<and> (isArray node \<or> typeof node = ''object'')")
    case False
    then show ?thesis by auto
  next
    case True
    then have t: "truthy node" by simp
    show ?thesis
    proof (cases "isArray node")
      case True
      then obtain vs where vs: "for_of node = Inr vs" using for_of_array by blast
      show ?thesis
        using t True vs "2.IH"(1)[OF _ True vs] depth_for_of[OF True vs]
        by (auto simp: bindE_def)
    next
      case False
      then have ob: "typeof node = ''object''" using True by simp
      obtain kvs where kvs: "Object_entries node = Inr kvs"
        using Object_entries_truthy[OF t] by blast
      show ?thesis
        using t False ob kvs "2.IH"(2)[OF _ False _ kvs] depth_Object_entries[OF t False ob kvs]
        by (auto simp: bindE_def)
    qed
  qed
next
  case (3 frames key out)
  show ?case by simp
next
  case (4 frames v vs key out)
  obtain out' where f: "findAllStringsByKey v key out = Inr out'"
    using findAllStringsByKey_total(1) by blast
  from "4.IH"(1) show ?case
  proof
    assume eq: "findAllStringsByKey_stack frames v key out = findAllStringsByKey v key out"
    show ?thesis using eq f "4.IH"(2)[of out']
      by (auto simp: bindE_def less_max_iff_disj simp del: findAllStringsByKey.simps)
  next
    assume "findAllStringsByKey_stack frames v key out = Inl RangeError \<and> frames < depth v"
    then show ?thesis
      by (simp add: bindE_def less_max_iff_disj del: findAllStringsByKey.simps)
  qed
next
  case (5 frames key out)
  show ?case by simp
next
  case (6 frames e es key out)
  let ?out1 = "if fst e = key \<and> typeof (snd e) = ''string'' then out @ [the_string (snd e)] else out"
  obtain out' where f: "findAllStringsByKey (snd e) key ?out1 = Inr out'"
    using findAllStringsByKey_total(1) by blast
  from "6.IH"(1) show ?case
  proof
    assume eq: "findAllStringsByKey_stack frames (snd e) key ?out1
                  = findAllStringsByKey (snd e) key ?out1"
    show ?thesis using eq f "6.IH"(2)[of out']
      by (auto simp: bindE_def less_max_iff_disj simp del: findAllStringsByKey.simps)
  next
    assume "findAllStringsByKey_stack frames (snd e) key ?out1 = Inl RangeError
              \<and> frames < depth (snd e)"
    then show ?thesis
      by (simp add: bindE_def less_max_iff_disj del: findAllStringsByKey.simps)
  qed
qed

lemma findAllStringsByKey_stack_overflow:
  "findAllStringsByKey_stack frames (nested frames) key out = Inl RangeError"
  by (induction frames arbitrary: out) (simp_all add: bindE_def)

lemma matches_list:
  "concat (map hits (subnodes_list vs)) = concat (map (matches hits) vs)"
  by (induction vs) (simp_all add: matches_def[abs_def])

lemma matches_entries:
  "concat (map hits (subnodes_entries es)) = concat (map (\<lambda>e. matches hits (snd e)) es)"
  by (induction es) (simp_all add: matches_def[abs_def])

lemma matches_Arr: "matches hits (Arr vs) = hits (Arr vs) @ concat (map (matches hits) vs)"
  using matches_list[of hits vs] by (simp add: matches_def[abs_def])

lemma matches_Obj:
  "matches hits (Obj kvs) = hits (Obj kvs) @ concat (map (\<lambda>e. matches hits (snd e)) kvs)"
  using matches_entries[of hits kvs] by (simp add: matches_def[abs_def])

lemma matches_self: "set (hits node) \<subseteq> set (matches hits node)"
  by (cases node) (simp_all add: matches_def)

lemma matches_for_of:
  "isArray node \<Longrightarrow> for_of node = Inr vs \<Longrightarrow> v \<in> set vs \<Longrightarrow>
   set (matches hits v) \<subseteq> set (matches hits node)"
  by (cases node) (auto simp: matches_Arr)

lemma matches_Object_values:
  "truthy node \<Longrightarrow> \<not> isArray node \<Longrightarrow> typeof node = ''object'' \<Longrightarrow>
   Object_values node = Inr vs \<Longrightarrow> v \<in> set vs \<Longrightarrow>
   set (matches hits v) \<subseteq> set (matches hits node)"
  by (cases node) (auto simp: matches_Obj Object_values_def bindE_def)

lemma get_properties:
  "get node key = Inr v \<Longrightarrow> v \<noteq> Undefined \<Longrightarrow> map_of (properties node) key = Some v"
  by (cases node) (auto simp: properties_def split: option.splits)

lemma set_map_filter: "set (List.map_filter f xs) = {y. \<exists>x \<in> set xs. f x = Some y}"
  by (induction xs) (auto simp: List.map_filter_def)

lemma findFirstStringByKeys_direct_sound:
  "findFirstStringByKeys_direct node keys = Inr (Some s) \<Longrightarrow> s \<in> set (string_hits keys node)"
proof (induction keys)
  case Nil
  then show ?case by simp
next
  case (Cons key keys)
  from Cons.prems obtain v where v: "get node key = Inr v"
    by (auto simp: bindE_def split: sum.splits)
  show ?case
  proof (cases "typeof v = ''string''")
    case True
    then obtain t where t: "v = Str t" by (cases v) auto
    then have "s = t" using Cons.prems v by (simp add: bindE_def the_string_def)
    moreover have "map_of (properties node) key = Some (Str t)"
      using get_properties[OF v] t by simp
    ultimately show ?thesis by (auto simp: string_hits_def set_map_filter simp del: map_filter_simps)
  next
    case False
    then have "findFirstStringByKeys_direct node keys = Inr (Some s)"
      using Cons.prems v by (simp add: bindE_def)
    then have "s \<in> set (string_hits keys node)" by (rule Cons.IH)
    then show ?thesis by (auto simp: string_hits_def set_map_filter simp del: map_filter_simps)
  qed
qed

lemma findFirstNumberLike_direct_sound:
  "findFirstNumberLike_direct node keys = Inr (Some n) \<Longrightarrow> n \<in> set (number_hits keys node)"
proof (induction keys)
  case Nil
  then show ?case by simp
next
  case (Cons key keys)
  from Cons.prems obtain b where b: "has_in key node = Inr b"
    by (auto simp: bindE_def split: sum.splits)
  show ?case
  proof (cases b)
    case False
    then have "findFirstNumberLike_direct node keys = Inr (Some n)"
      using Cons.prems b by (simp add: bindE_def)
    then have "n \<in> set (number_hits keys node)" by (rule Cons.IH)
    then show ?thesis by (auto simp: number_hits_def set_map_filter simp del: map_filter_simps)
  next
    case True
    then obtain kvs where node: "node = Obj kvs" and k: "key \<in> set (map fst kvs)"
      using b by (cases node) auto
    then obtain v where v: "map_of kvs key = Some v"
      by (metis domD dom_map_of_conv_image_fst list.set_map)
    obtain t where t: "toTon v = Inr t" using toTon_total by blast
    show ?thesis
    proof (cases t)
      case None
      then have "findFirstNumberLike_direct node keys = Inr (Some n)"
        using Cons.prems b True node v t by (simp add: bindE_def)
      then have "n \<in> set (number_hits keys node)" by (rule Cons.IH)
      then show ?thesis by (auto simp: number_hits_def set_map_filter simp del: map_filter_simps)
    next
      case (Some m)
      then have "n = m" using Cons.prems b True node v t by (simp add: bindE_def)
      then show ?thesis using node v t Some
        by (auto simp: number_hits_def set_map_filter properties_def simp del: map_filter_simps)
    qed
  qed
qed

lemma findFirstAddressByKeys_direct_sound:
  "findFirstAddressByKeys_direct node keys = Inr (Some a) \<Longrightarrow> a \<in> set (address_hits keys node)"
proof (induction keys)
  case Nil
  then show ?case by simp
next
  case (Cons key keys)
  from Cons.prems obtain b where b: "has_in key node = Inr b"
    by (auto simp: bindE_def split: sum.splits)
  show ?case
  proof (cases b)
    case False
    then have "findFirstAddressByKeys_direct node keys = Inr (Some a)"
      using Cons.prems b by (simp add: bindE_def)
    then have "a \<in> set (address_hits keys node)" by (rule Cons.IH)
    then show ?thesis by (auto simp: address_hits_def set_map_filter simp del: map_filter_simps)
  next
    case True
    then obtain kvs where node: "node = Obj kvs" and k: "key \<in> set (map fst kvs)"
      using b by (cases node) auto
    then obtain v where v: "map_of kvs key = Some v"
      by (metis domD dom_map_of_conv_image_fst list.set_map)
    obtain t where t: "extractAddressFromNode v = Inr t"
      using extractAddressFromNode_total by blast
    show ?thesis
    proof (cases "falsy_string t")
      case True
      then have "findFirstAddressByKeys_direct node keys = Inr (Some a)"
        using Cons.prems b \<open>b\<close> node v t by (simp add: bindE_def)
      then have "a \<in> set (address_hits keys node)" by (rule Cons.IH)
      then show ?thesis by (auto simp: address_hits_def set_map_filter simp del: map_filter_simps)
    next
      case False
      then have "t = Some a" using Cons.prems b \<open>b\<close> node v t by (simp add: bindE_def)
      then show ?thesis using node v t
        by (auto simp: address_hits_def set_map_filter properties_def simp del: map_filter_simps)
    qed
  qed
qed

lemma findFirstStringByKeys_sound:
  "findFirstStringByKeys node keys = Inr (Some s) \<Longrightarrow> s \<in> set (matches (string_hits keys) node)"
  "findFirstStringByKeys_loop vs keys = Inr (Some s) \<Longrightarrow> \<exists>v \<in> set vs. s \<in> set (matches (string_hits keys) v)"
proof (induction node keys and vs keys rule: findFirstStringByKeys_findFirstStringByKeys_loop.induct)
  case (1 node keys)
  from "1.prems" have t: "truthy node" by (auto split: if_splits)
  show ?case
  proof (cases "isArray node")
    case True
    then obtain vs where vs: "for_of node = Inr vs" using for_of_array by blast
    have "findFirstStringByKeys_loop vs keys = Inr (Some s)"
      using "1.prems" t True vs by (simp add: bindE_def)
    then obtain v where "v \<in> set vs" "s \<in> set (matches (string_hits keys) v)"
      using "1.IH"(1)[OF _ True vs] t by auto
    then show ?thesis using matches_for_of[OF True vs, where hits = "string_hits keys"] by blast
  next
    case False
    then have ob: "typeof node = ''object''" using "1.prems" t by (auto split: if_splits)
    obtain d where d: "findFirstStringByKeys_direct node keys = Inr d"
      using findFirstStringByKeys_direct_total[OF t] by blast
    obtain vs where vs: "Object_values node = Inr vs" using Object_values_truthy[OF t] by blast
    show ?thesis
    proof (cases d)
      case None
      have "findFirstStringByKeys_loop vs keys = Inr (Some s)"
        using "1.prems" t False ob d None vs by (simp add: bindE_def)
      then obtain v where "v \<in> set vs" "s \<in> set (matches (string_hits keys) v)"
        using "1.IH"(2)[OF _ False _ d None vs] t ob by auto
      then show ?thesis using matches_Object_values[OF t False ob vs, where hits = "string_hits keys"] by blast
    next
      case (Some x)
      then have "x = s" using "1.prems" t False ob d by (simp add: bindE_def)
      then have "s \<in> set (string_hits keys node)"
        using findFirstStringByKeys_direct_sound[of node keys s] d Some by simp
      then show ?thesis using matches_self[of "string_hits keys" node] by blast
    qed
  qed
next
  case (2 keys)
  then show ?case by simp
next
  case (3 v vs keys)
  obtain found where f: "findFirstStringByKeys v keys = Inr found"
    using findFirstStringByKeys_total(1) by blast
  show ?case
  proof (cases "falsy_string found")
    case True
    then have "findFirstStringByKeys_loop vs keys = Inr (Some s)"
      using "3.prems" f by (simp add: bindE_def del: findFirstStringByKeys.simps)
    then show ?thesis using "3.IH"(2)[OF f] True by auto
  next
    case False
    then have "found = Some s" using "3.prems" f by (simp add: bindE_def del: findFirstStringByKeys.simps)
    then show ?thesis using "3.IH"(1) f by simp
  qed
qed

lemma findFirstStringByKeys_absent:
  "matches (string_hits keys) node = [] \<Longrightarrow> findFirstStringByKeys node keys = Inr None"
proof -
  assume none: "matches (string_hits keys) node = []"
  obtain r where r: "findFirstStringByKeys node keys = Inr r" using findFirstStringByKeys_total(1) by blast
  show ?thesis
  proof (cases r)
    case None
    then show ?thesis using r by simp
  next
    case (Some s)
    then show ?thesis using findFirstStringByKeys_sound(1)[of node keys s] r none by simp
  qed
qed

lemma findFirstNumberLike_sound:
  "findFirstNumberLike node keys = Inr (Some s) \<Longrightarrow> s \<in> set (matches (number_hits keys) node)"
  "findFirstNumberLike_loop vs keys = Inr (Some s) \<Longrightarrow> \<exists>v \<in> set vs. s \<in> set (matches (number_hits keys) v)"
proof (induction node keys and vs keys rule: findFirstNumberLike_findFirstNumberLike_loop.induct)
  case (1 node keys)
  from "1.prems" have t: "truthy node" by (auto split: if_splits)
  show ?case
  proof (cases "isArray node")
    case True
    then obtain vs where vs: "for_of node = Inr vs" using for_of_array by blast
    have "findFirstNumberLike_loop vs keys = Inr (Some s)"
      using "1.prems" t True vs by (simp add: bindE_def)
    then obtain v where "v \<in> set vs" "s \<in> set (matches (number_hits keys) v)"
      using "1.IH"(1)[OF _ True vs] t by auto
    then show ?thesis using matches_for_of[OF True vs, where hits = "number_hits keys"] by blast
  next
    case False
    then have ob: "typeof node = ''object''" using "1.prems" t by (auto split: if_splits)
    obtain d where d: "findFirstNumberLike_direct node keys = Inr d"
      using findFirstNumberLike_direct_total[OF t ob] by blast
    obtain vs where vs: "Object_values node = Inr vs" using Object_values_truthy[OF t] by blast
    show ?thesis
    proof (cases d)
      case None
      have "findFirstNumberLike_loop vs keys = Inr (Some s)"
        using "1.prems" t False ob d None vs by (simp add: bindE_def)
      then obtain v where "v \<in> set vs" "s \<in> set (matches (number_hits keys) v)"
        using "1.IH"(2)[OF _ False _ d None vs] t ob by auto
      then show ?thesis using matches_Object_values[OF t False ob vs, where hits = "number_hits keys"] by blast
    next
      case (Some x)
      then have "x = s" using "1.prems" t False ob d by (simp add: bindE_def)
      then have "s \<in> set (number_hits keys node)"
        using findFirstNumberLike_direct_sound[of node keys s] d Some by simp
      then show ?thesis using matches_self[of "number_hits keys" node] by blast
    qed
  qed
next
  case (2 keys)
  then show ?case by simp
next
  case (3 v vs keys)
  obtain found where f: "findFirstNumberLike v keys = Inr found"
    using findFirstNumberLike_total(1) by blast
  show ?case
  proof (cases "found = None")
    case True
    then have "findFirstNumberLike_loop vs keys = Inr (Some s)"
      using "3.prems" f by (simp add: bindE_def del: findFirstNumberLike.simps)
    then show ?thesis using "3.IH"(2)[OF f] True by auto
  next
    case False
    then have "found = Some s" using "3.prems" f by (simp add: bindE_def del: findFirstNumberLike.simps)
    then show ?thesis using "3.IH"(1) f by simp
  qed
qed

lemma findFirstNumberLike_absent:
  "matches (number_hits keys) node = [] \<Longrightarrow> findFirstNumberLike node keys = Inr None"
proof -
  assume none: "matches (number_hits keys) node = []"
  obtain r where r: "findFirstNumberLike node keys = Inr r" using findFirstNumberLike_total(1) by blast
  show ?thesis
  proof (cases r)
    case None
    then show ?thesis using r by simp
  next
    case (Some s)
    then show ?thesis using findFirstNumberLike_sound(1)[of node keys s] r none by simp
  qed
qed

lemma findFirstAddressByKeys_sound:
  "findFirstAddressByKeys node keys = Inr (Some s) \<Longrightarrow> s \<in> set (matches (address_hits keys) node)"
  "findFirstAddressByKeys_loop vs keys = Inr (Some s) \<Longrightarrow> \<exists>v \<in> set vs. s \<in> set (matches (address_hits keys) v)"
proof (induction node keys and vs keys rule: findFirstAddressByKeys_findFirstAddressByKeys_loop.induct)
  case (1 node keys)
  from "1.prems" have t: "truthy node" by (auto split: if_splits)
  show ?case
  proof (cases "isArray node")
    case True
    then obtain vs where vs: "for_of node = Inr vs" using for_of_array by blast
    have "findFirstAddressByKeys_loop vs keys = Inr (Some s)"
      using "1.prems" t True vs by (simp add: bindE_def)
    then obtain v where "v \<in> set vs" "s \<in> set (matches (address_hits keys) v)"
      using "1.IH"(1)[OF _ True vs] t by auto
    then show ?thesis using matches_for_of[OF True vs, where hits = "address_hits keys"] by blast
  next
    case False
    then have ob: "typeof node = ''object''" using "1.prems" t by (auto split: if_splits)
    obtain d where d: "findFirstAddressByKeys_direct node keys = Inr d"
      using findFirstAddressByKeys_direct_total[OF t ob] by blast
    obtain vs where vs: "Object_values node = Inr vs" using Object_values_truthy[OF t] by blast
    show ?thesis
    proof (cases d)
      case None
      have "findFirstAddressByKeys_loop vs keys = Inr (Some s)"
        using "1.prems" t False ob d None vs by (simp add: bindE_def)
      then obtain v where "v \<in> set vs" "s \<in> set (matches (address_hits keys) v)"
        using "1.IH"(2)[OF _ False _ d None vs] t ob by auto
      then show ?thesis using matches_Object_values[OF t False ob vs, where hits = "address_hits keys"] by blast
    next
      case (Some x)
      then have "x = s" using "1.prems" t False ob d by (simp add: bindE_def)
      then have "s \<in> set (address_hits keys node)"
        using findFirstAddressByKeys_direct_sound[of node keys s] d Some by simp
      then show ?thesis using matches_self[of "address_hits keys" node] by blast
    qed
  qed
next
  case (2 keys)
  then show ?case by simp
next
  case (3 v vs keys)
  obtain found where f: "findFirstAddressByKeys v keys = Inr found"
    using findFirstAddressByKeys_total(1) by blast
  show ?case
  proof (cases "falsy_string found")
    case True
    then have "findFirstAddressByKeys_loop vs keys = Inr (Some s)"
      using "3.prems" f by (simp add: bindE_def del: findFirstAddressByKeys.simps)
    then show ?thesis using "3.IH"(2)[OF f] True by auto
  next
    case False
    then have "found = Some s" using "3.prems" f by (simp add: bindE_def del: findFirstAddressByKeys.simps)
    then show ?thesis using "3.IH"(1) f by simp
  qed
qed

lemma findFirstAddressByKeys_absent:
  "matches (address_hits keys) node = [] \<Longrightarrow> findFirstAddressByKeys node keys = Inr None"
proof -
  assume none: "matches (address_hits keys) node = []"
  obtain r where r: "findFirstAddressByKeys node keys = Inr r" using findFirstAddressByKeys_total(1) by blast
  show ?thesis
  proof (cases r)
    case None
    then show ?thesis using r by simp
  next
    case (Some s)
    then show ?thesis using findFirstAddressByKeys_sound(1)[of node keys s] r none by simp
  qed
qed


lemma key_hits_Cons:
  "key_hits key (Obj (e # es))
     = (if fst e = key \<and> typeof (snd e) = ''string'' then [the_string (snd e)] else [])
       @ key_hits key (Obj es)"
  by (cases "snd e") (simp_all add: key_hits_def properties_def the_string_def)

lemma key_hits_not_object: "properties node = [] \<Longrightarrow> key_hits key node = []"
  by (simp add: key_hits_def)

lemma findAllStringsByKey_collects:
  "\<exists>ys. findAllStringsByKey node key out = Inr (out @ ys)
        \<and> mset ys = mset (matches (key_hits key) node)"
  "\<exists>ys. findAllStringsByKey_array vs key out = Inr (out @ ys)
        \<and> mset ys = mset (concat (map (matches (key_hits key)) vs))"
  "\<exists>ys. findAllStringsByKey_entries es key out = Inr (out @ ys)
        \<and> mset ys = mset (key_hits key (Obj es))
                    + mset (concat (map (\<lambda>e. matches (key_hits key) (snd e)) es))"
proof (induction node key out and vs key out and es key out
    rule: findAllStringsByKey_findAllStringsByKey_array_findAllStringsByKey_entries.induct)
  case (1 node key out)
  show ?case
  proof (cases "truthy node \<and> (isArray node \<or> typeof node = ''object'')")
    case False
    then have "matches (key_hits key) node = []"
      by (cases node) (auto simp: matches_def key_hits_def properties_def)
    then show ?thesis using False by auto
  next
    case True
    then have t: "truthy node" by simp
    show ?thesis
    proof (cases "isArray node")
      case True
      then obtain vs where node: "node = Arr vs" by (cases node) auto
      have "matches (key_hits key) node = concat (map (matches (key_hits key)) vs)"
        unfolding node by (simp add: matches_Arr key_hits_def properties_def)
      then show ?thesis using "1.IH"(1)[OF _ True, of vs] t True node by (simp add: bindE_def)
    next
      case False
      then have ob: "typeof node = ''object''" using True by simp
      obtain kvs where node: "node = Obj kvs" using t False ob by (cases node) auto
      have "matches (key_hits key) node
              = key_hits key (Obj kvs) @ concat (map (\<lambda>e. matches (key_hits key) (snd e)) kvs)"
        unfolding node by (simp add: matches_Obj)
      then show ?thesis using "1.IH"(2)[OF _ False _, of kvs] t False ob node
        by (simp add: bindE_def)
    qed
  qed
next
  case (2 key out)
  show ?case by simp
next
  case (3 v vs key out)
  obtain ys where ys: "findAllStringsByKey v key out = Inr (out @ ys)"
    "mset ys = mset (matches (key_hits key) v)"
    using "3.IH"(1) by blast
  obtain zs where zs: "findAllStringsByKey_array vs key (out @ ys) = Inr ((out @ ys) @ zs)"
    "mset zs = mset (concat (map (matches (key_hits key)) vs))"
    using "3.IH"(2)[OF ys(1)] by blast
  have "findAllStringsByKey_array (v # vs) key out = Inr (out @ (ys @ zs))"
    using ys(1) zs(1) by (simp add: bindE_def del: findAllStringsByKey.simps)
  moreover have "mset (ys @ zs) = mset (concat (map (matches (key_hits key)) (v # vs)))"
    using ys(2) zs(2) by simp
  ultimately show ?case by blast
next
  case (4 key out)
  show ?case by (simp add: key_hits_def properties_def)
next
  case (5 e es key out)
  let ?hit = "if fst e = key \<and> typeof (snd e) = ''string'' then [the_string (snd e)] else []"
  let ?out1 = "if fst e = key \<and> typeof (snd e) = ''string'' then out @ [the_string (snd e)] else out"
  have out1: "?out1 = out @ ?hit" by simp
  obtain ys where ys: "findAllStringsByKey (snd e) key ?out1 = Inr (?out1 @ ys)"
    "mset ys = mset (matches (key_hits key) (snd e))"
    using "5.IH"(1) by blast
  obtain zs where zs: "findAllStringsByKey_entries es key (?out1 @ ys) = Inr ((?out1 @ ys) @ zs)"
    "mset zs = mset (key_hits key (Obj es))
               + mset (concat (map (\<lambda>e. matches (key_hits key) (snd e)) es))"
    using "5.IH"(2)[OF ys(1)] by blast
  have "findAllStringsByKey_entries (e # es) key out = Inr (out @ (?hit @ ys @ zs))"
    using ys(1) zs(1)
    by (cases "fst e = key \<and> typeof (snd e) = ''string''")
       (auto simp: bindE_def simp del: findAllStringsByKey.simps)
  moreover have "mset (?hit @ ys @ zs)
      = mset (key_hits key (Obj (e # es)))
        + mset (concat (map (\<lambda>e. matches (key_hits key) (snd e)) (e # es)))"
    unfolding key_hits_Cons using ys(2) zs(2) by simp
  ultimately show ?case by blast
qed

text \<open>
  C7, as stated, fails.  Whatever number of activations the stack has room for, the
  empty array nested in that many arrays makes each of the four extractors throw a
  \<open>RangeError\<close>: the extractor calls itself once per level and runs out of stack before
  it reaches the innermost array.
\<close>

theorem C7_deep_nesting_counterexample:
  "(\<forall>frames. findFirstStringByKeys_stack frames (nested frames) [''image''] = Inl RangeError
      \<and> findFirstNumberLike_stack frames (nested frames) [''price''] = Inl RangeError
      \<and> findFirstAddressByKeys_stack frames (nested frames) [''nft''] = Inl RangeError
      \<and> findAllStringsByKey_stack frames (nested frames) ''image'' [] = Inl RangeError)
   \<and> nested 2 = Arr [Arr [Arr []]]
   \<and> findFirstStringByKeys_stack 2 (Arr [Arr [Arr []]]) [''image''] = Inl RangeError"
proof -
  have "nested 2 = Arr [Arr [Arr []]]" by (simp add: numeral_2_eq_2)
  moreover have "findFirstStringByKeys_stack 2 (Arr [Arr [Arr []]]) [''image''] = Inl RangeError"
    by (simp add: numeral_2_eq_2 bindE_def)
  ultimately show ?thesis
    using findFirstStringByKeys_stack_overflow findFirstNumberLike_stack_overflow
      findFirstAddressByKeys_stack_overflow findAllStringsByKey_stack_overflow
    by simp
qed

text \<open>
  C7 (amended).  On a payload whose nesting depth is within the room on the stack each
  extractor does what it does on a stack without bound, where it returns on every
  payload: none of the operations that can throw is reached with an operand that makes
  it throw.  On any payload and any stack an extractor either returns or throws a
  \<open>RangeError\<close>, and it throws only when the payload is nested deeper than the stack has
  room for.  What the three searches return is a match of the payload, and on a payload
  without a match (within the stack) they return \<open>undefined\<close>; the collector appends to
  its array exactly the matches of the payload, each as often as it occurs, so it leaves
  the array alone when there is none.  The bound on the depth cannot be dropped: a
  payload one level deeper than the stack has room for makes every extractor throw.
\<close>

theorem C7_extractors_within_stack:
  "(depth node \<le> frames \<longrightarrow>
      findFirstStringByKeys_stack frames node keys = findFirstStringByKeys node keys
      \<and> findFirstNumberLike_stack frames node keys = findFirstNumberLike node keys
      \<and> findFirstAddressByKeys_stack frames node keys = findFirstAddressByKeys node keys
      \<and> findAllStringsByKey_stack frames node key out = findAllStringsByKey node key out)
   \<and> (\<exists>r. findFirstStringByKeys node keys = Inr r)
   \<and> (\<exists>r. findFirstNumberLike node keys = Inr r)
   \<and> (\<exists>r. findFirstAddressByKeys node keys = Inr r)
   \<and> (\<exists>r. findAllStringsByKey node key out = Inr r)
   \<and> ((\<exists>r. findFirstStringByKeys_stack frames node keys = Inr r)
        \<or> findFirstStringByKeys_stack frames node keys = Inl RangeError \<and> frames < depth node)
   \<and> ((\<exists>r. findFirstNumberLike_stack frames node keys = Inr r)
        \<or> findFirstNumberLike_stack frames node keys = Inl RangeError \<and> frames < depth node)
   \<and> ((\<exists>r. findFirstAddressByKeys_stack frames node keys = Inr r)
        \<or> findFirstAddressByKeys_stack frames node keys = Inl RangeError \<and> frames < depth node)
   \<and> ((\<exists>r. findAllStringsByKey_stack frames node key out = Inr r)
        \<or> findAllStringsByKey_stack frames node key out = Inl RangeError \<and> frames < depth node)
   \<and> (findFirstStringByKeys_stack frames node keys = Inr (Some s) \<longrightarrow>
        s \<in> set (matches (string_hits keys) node))
   \<and> (findFirstNumberLike_stack frames node keys = Inr (Some n) \<longrightarrow>
        n \<in> set (matches (number_hits keys) node))
   \<and> (findFirstAddressByKeys_stack frames node keys = Inr (Some a) \<longrightarrow>
        a \<in> set (matches (address_hits keys) node))
   \<and> (depth miss \<le> frames \<and> matches (string_hits keys) miss = [] \<longrightarrow>
        findFirstStringByKeys_stack frames miss keys = Inr None)
   \<and> (depth miss \<le> frames \<and> matches (number_hits keys) miss = [] \<longrightarrow>
        findFirstNumberLike_stack frames miss keys = Inr None)
   \<and> (depth miss \<le> frames \<and> matches (address_hits keys) miss = [] \<longrightarrow>
        findFirstAddressByKeys_stack frames miss keys = Inr None)
   \<and> (depth node \<le> frames \<longrightarrow>
        (\<exists>ys. findAllStringsByKey_stack frames node key out = Inr (out @ ys)
              \<and> mset ys = mset (matches (key_hits key) node)))
   \<and> (depth miss \<le> frames \<and> matches (key_hits key) miss = [] \<longrightarrow>
        findAllStringsByKey_stack frames miss key out = Inr out)
   \<and> depth (nested frames) = Suc frames
   \<and> findFirstStringByKeys_stack frames (nested frames) keys = Inl RangeError
   \<and> findFirstNumberLike_stack frames (nested frames) keys = Inl RangeError
   \<and> findFirstAddressByKeys_stack frames (nested frames) keys = Inl RangeError
   \<and> findAllStringsByKey_stack frames (nested frames) key out = Inl RangeError"
proof -
  note sc = findFirstStringByKeys_stack_cases(1)
  note nc = findFirstNumberLike_stack_cases(1)
  note ac = findFirstAddressByKeys_stack_cases(1)
  note kc = findAllStringsByKey_stack_cases(1)
  have agree: "findFirstStringByKeys_stack frames x keys = findFirstStringByKeys x keys
      \<and> findFirstNumberLike_stack frames x keys = findFirstNumberLike x keys
      \<and> findFirstAddressByKeys_stack frames x keys = findFirstAddressByKeys x keys
      \<and> findAllStringsByKey_stack frames x key out = findAllStringsByKey x key out"
    if "depth x \<le> frames" for x
    using that sc[of frames x keys] nc[of frames x keys] ac[of frames x keys] kc[of frames x key out]
    by auto
  have total: "(\<exists>r. findFirstStringByKeys node keys = Inr r)
      \<and> (\<exists>r. findFirstNumberLike node keys = Inr r)
      \<and> (\<exists>r. findFirstAddressByKeys node keys = Inr r)
      \<and> (\<exists>r. findAllStringsByKey node key out = Inr r)"
    using findFirstStringByKeys_total(1) findFirstNumberLike_total(1)
      findFirstAddressByKeys_total(1) findAllStringsByKey_total(1) by blast
  have s2: "(\<exists>r. findFirstStringByKeys_stack frames node keys = Inr r)
        \<or> findFirstStringByKeys_stack frames node keys = Inl RangeError \<and> frames < depth node"
    using sc[of frames node keys] total by metis
  have n2: "(\<exists>r. findFirstNumberLike_stack frames node keys = Inr r)
        \<or> findFirstNumberLike_stack frames node keys = Inl RangeError \<and> frames < depth node"
    using nc[of frames node keys] total by metis
  have a2: "(\<exists>r. findFirstAddressByKeys_stack frames node keys = Inr r)
        \<or> findFirstAddressByKeys_stack frames node keys = Inl RangeError \<and> frames < depth node"
    using ac[of frames node keys] total by metis
  have k2: "(\<exists>r. findAllStringsByKey_stack frames node key out = Inr r)
        \<or> findAllStringsByKey_stack frames node key out = Inl RangeError \<and> frames < depth node"
    using kc[of frames node key out] total by metis
  have s3: "s \<in> set (matches (string_hits keys) node)"
    if "findFirstStringByKeys_stack frames node keys = Inr (Some s)"
    using that sc[of frames node keys] findFirstStringByKeys_sound(1)[of node keys s] by auto
  have n3: "n \<in> set (matches (number_hits keys) node)"
    if "findFirstNumberLike_stack frames node keys = Inr (Some n)"
    using that nc[of frames node keys] findFirstNumberLike_sound(1)[of node keys n] by auto
  have a3: "a \<in> set (matches (address_hits keys) node)"
    if "findFirstAddressByKeys_stack frames node keys = Inr (Some a)"
    using that ac[of frames node keys] findFirstAddressByKeys_sound(1)[of node keys a] by auto
  have s4: "findFirstStringByKeys_stack frames miss keys = Inr None"
    if "depth miss \<le> frames \<and> matches (string_hits keys) miss = []"
    using that agree[of miss] findFirstStringByKeys_absent[of keys miss] by simp
  have n4: "findFirstNumberLike_stack frames miss keys = Inr None"
    if "depth miss \<le> frames \<and> matches (number_hits keys) miss = []"
    using that agree[of miss] findFirstNumberLike_absent[of keys miss] by simp
  have a4: "findFirstAddressByKeys_stack frames miss keys = Inr None"
    if "depth miss \<le> frames \<and> matches (address_hits keys) miss = []"
    using that agree[of miss] findFirstAddressByKeys_absent[of keys miss] by simp
  have k1: "\<exists>ys. findAllStringsByKey_stack frames x key out = Inr (out @ ys)
              \<and> mset ys = mset (matches (key_hits key) x)"
    if "depth x \<le> frames" for x
    using agree[OF that] findAllStringsByKey_collects(1)[of x key out] by simp
  have k4: "findAllStringsByKey_stack frames miss key out = Inr out"
    if "depth miss \<le> frames \<and> matches (key_hits key) miss = []"
    using that k1[of miss] by auto
  show ?thesis
    using agree[of node] total s2 n2 a2 k2 s3 n3 a3 s4 n4 a4 k1[of node] k4 depth_nested[of frames]
      findFirstStringByKeys_stack_overflow[of frames keys]
      findFirstNumberLike_stack_overflow[of frames keys]
      findFirstAddressByKeys_stack_overflow[of frames keys]
      findAllStringsByKey_stack_overflow[of frames key out]
    by blast
qed

theorem C7_extractors_within_stack_witness:
  "depth (Obj [(''a'', Arr [Obj [(''image'', Str ''u''), (''price'', Num (Fin 5)),
                               (''nft'', Str ''EQabc'')]])]) \<le> 4
   \<and> findFirstStringByKeys_stack 4
        (Obj [(''a'', Arr [Obj [(''image'', Str ''u''), (''price'', Num (Fin 5)),
                                (''nft'', Str ''EQabc'')]])]) [''image'', ''price'', ''nft'']
      = Inr (Some ''u'')
   \<and> ''u'' \<in> set (matches (string_hits [''image'', ''price'', ''nft''])
        (Obj [(''a'', Arr [Obj [(''image'', Str ''u''), (''price'', Num (Fin 5)),
                                (''nft'', Str ''EQabc'')]])]))
   \<and> findFirstNumberLike_stack 4
        (Obj [(''a'', Arr [Obj [(''image'', Str ''u''), (''price'', Num (Fin 5)),
                                (''nft'', Str ''EQabc'')]])]) [''image'', ''price'', ''nft'']
      = Inr (Some (Fin 5))
   \<and> Fin 5 \<in> set (matches (number_hits [''image'', ''price'', ''nft''])
        (Obj [(''a'', Arr [Obj [(''image'', Str ''u''), (''price'', Num (Fin 5)),
                                (''nft'', Str ''EQabc'')]])]))
   \<and> findFirstAddressByKeys_stack 4
        (Obj [(''a'', Arr [Obj [(''image'', Str ''u''), (''price'', Num (Fin 5)),
                                (''nft'', Str ''EQabc'')]])]) [''image'', ''price'', ''nft'']
      = Inr (Some ''EQabc'')
   \<and> ''EQabc'' \<in> set (matches (address_hits [''image'', ''price'', ''nft''])
        (Obj [(''a'', Arr [Obj [(''image'', Str ''u''), (''price'', Num (Fin 5)),
                                (''nft'', Str ''EQabc'')]])]))
   \<and> depth (Arr [Obj [(''other'', Str ''y'')]]) \<le> 4
   \<and> matches (string_hits [''image'', ''price'', ''nft'']) (Arr [Obj [(''other'', Str ''y'')]]) = []
   \<and> matches (number_hits [''image'', ''price'', ''nft'']) (Arr [Obj [(''other'', Str ''y'')]]) = []
   \<and> matches (address_hits [''image'', ''price'', ''nft'']) (Arr [Obj [(''other'', Str ''y'')]]) = []
   \<and> matches (key_hits ''image'') (Arr [Obj [(''other'', Str ''y'')]]) = []
   \<and> findFirstStringByKeys_stack 4 (Arr [Obj [(''other'', Str ''y'')]])
        [''image'', ''price'', ''nft''] = Inr None
   \<and> findFirstNumberLike_stack 4 (Arr [Obj [(''other'', Str ''y'')]])
        [''image'', ''price'', ''nft''] = Inr None
   \<and> findFirstAddressByKeys_stack 4 (Arr [Obj [(''other'', Str ''y'')]])
        [''image'', ''price'', ''nft''] = Inr None
   \<and> findAllStringsByKey_stack 4 (Arr [Obj [(''other'', Str ''y'')]]) ''image'' [''x''] = Inr [''x'']
   \<and> findAllStringsByKey_stack 4
        (Obj [(''a'', Arr [Obj [(''image'', Str ''u''), (''price'', Num (Fin 5)),
                                (''nft'', Str ''EQabc'')]])]) ''image'' [''x'']
      = Inr [''x'', ''u'']"
proof -
  let ?node = "Obj [(''a'', Arr [Obj [(''image'', Str ''u''), (''price'', Num (Fin 5)),
                                     (''nft'', Str ''EQabc'')]])]"
  let ?miss = "Arr [Obj [(''other'', Str ''y'')]]"
  let ?keys = "[''image'', ''price'', ''nft'']"
  have d1: "depth ?node \<le> 4" by code_simp
  have d2: "depth ?miss \<le> 4" by code_simp
  have r1: "findFirstStringByKeys_stack 4 ?node ?keys = Inr (Some ''u'')" by code_simp
  have r2: "findFirstNumberLike_stack 4 ?node ?keys = Inr (Some (Fin 5))" by code_simp
  have r3: "findFirstAddressByKeys_stack 4 ?node ?keys = Inr (Some ''EQabc'')" by code_simp
  have r4: "findAllStringsByKey_stack 4 ?node ''image'' [''x''] = Inr [''x'', ''u'']" by code_simp
  have m1: "matches (string_hits ?keys) ?miss = []" by code_simp
  have m2: "matches (number_hits ?keys) ?miss = []" by code_simp
  have m3: "matches (address_hits ?keys) ?miss = []" by code_simp
  have m4: "matches (key_hits ''image'') ?miss = []" by code_simp
  show ?thesis
    using d1 d2 r1 r2 r3 r4 m1 m2 m3 m4
      C7_extractors_within_stack [of ?node 4 ?keys "''image''" "[''x'']" "''u''" "Fin 5" "''EQabc''" ?miss]
    by blast
qed

subsection \<open>The preference store\<close>

lemma dropWhile_unchanged: "xs = [] \<or> \<not> P (hd xs) \<Longrightarrow> dropWhile P xs = xs"
  by (cases xs) auto

lemma trim_idem: "trim (trim s) = trim s"
proof -
  let ?t = "dropWhile is_ws s"
  let ?u = "rev (dropWhile is_ws (rev ?t))"
  have split: "?t = ?u @ rev (takeWhile is_ws (rev ?t))"
    by (metis rev_append rev_rev_ident takeWhile_dropWhile_id)
  have front: "dropWhile is_ws ?u = ?u"
  proof (cases "?u = []")
    case True
    show ?thesis unfolding True by simp
  next
    case False
    then have "hd ?u = hd ?t" using split by (metis hd_append2)
    moreover have "?t \<noteq> []" using False split by (metis append_is_Nil_conv)
    then have "\<not> is_ws (hd ?t)" by (rule hd_dropWhile)
    ultimately show ?thesis by (intro dropWhile_unchanged) simp
  qed
  have "trim (trim s) = rev (dropWhile is_ws (rev (dropWhile is_ws ?u)))"
    by (simp add: trim_def)
  also have "\<dots> = rev (dropWhile is_ws (rev ?u))" by (simp only: front)
  also have "\<dots> = ?u" by simp
  finally show ?thesis by (simp add: trim_def)
qed

lemma normalizeTab_range:
  "normalizeTab show v = Inr t \<Longrightarrow> t = ''listing'' \<or> t = ''sale'' \<or> t = ''rent''"
  by (auto simp: normalizeTab_def bindE_def Let_def split: sum.splits if_splits)

lemma asNumber_finite:
  "asNumber show v d = Inr n \<Longrightarrow> isFinite d \<Longrightarrow> isFinite n"
  by (auto simp: asNumber_def bindE_def split: sum.splits if_splits)

lemma asNumber_value:
  "asNumber show v d = Inr n \<Longrightarrow> js_Number show v = Inr x \<Longrightarrow> n = (if isFinite x then x else d)"
  by (cases v) (auto simp: asNumber_def bindE_def split: sum.splits if_splits)

lemma Math_max_zero: "Math_max (Fin 0) (Fin x) = Fin (max 0 x)"
  by (simp add: max_def)

lemma Math_max_nonneg:
  "isFinite n \<Longrightarrow> (case Math_max (Fin 0) n of Fin a \<Rightarrow> 0 \<le> a | _ \<Rightarrow> False)"
  by (cases n) auto

lemma normalizeFilters_map_trimmed:
  "normalizeFilters_map show ms = Inr xs \<Longrightarrow> list_all (\<lambda>m. trim m = m) xs"
proof (induction ms arbitrary: xs)
  case Nil
  then show ?case by simp
next
  case (Cons m ms)
  then show ?case
    by (auto simp: bindE_def trim_idem split: sum.splits)
qed

lemma bindE_Inr: "(bindE m g = Inr y) = (\<exists>x. m = Inr x \<and> g x = Inr y)"
  by (cases m) (simp_all add: bindE_def)

lemma normalizeFilters_parts:
  assumes "normalizeFilters show input = Inr f"
  shows "\<exists>tab_in min_in max_in modelsRaw mapped min_n max_n.
     normalizeTab show tab_in = Inr (tab f)
     \<and> asNumber show min_in (Fin 0) = Inr min_n
     \<and> asNumber show max_in (Fin 5000) = Inr max_n
     \<and> normalizeFilters_map show modelsRaw = Inr mapped
     \<and> minTon f = Math_max (Fin 0) min_n \<and> maxTon f = Math_max (Fin 0) max_n
     \<and> models f = take 500 (filter (\<lambda>s. s \<noteq> []) mapped)"
proof -
  from assms obtain tab_in tab' min_in min_n max_in max_n modelsRaw mapped
    where "normalizeTab show tab_in = Inr tab'"
      and "asNumber show min_in (Fin 0) = Inr min_n"
      and "asNumber show max_in (Fin 5000) = Inr max_n"
      and "normalizeFilters_map show modelsRaw = Inr mapped"
      and "f = \<lparr>tab = tab', minTon = Math_max (Fin 0) min_n, maxTon = Math_max (Fin 0) max_n,
                models = take 500 (filter (\<lambda>s. s \<noteq> []) mapped)\<rparr>"
    unfolding normalizeFilters_def Let_def bindE_Inr by blast
  then show ?thesis by (simp, blast)
qed

lemma normalizeFilters_normalized:
  assumes "normalizeFilters show input = Inr f"
  shows "normalized f"
proof -
  from normalizeFilters_parts[OF assms] obtain tab_in min_in max_in modelsRaw mapped min_n max_n
    where tab: "normalizeTab show tab_in = Inr (tab f)"
      and mn: "asNumber show min_in (Fin 0) = Inr min_n"
      and mx: "asNumber show max_in (Fin 5000) = Inr max_n"
      and mp: "normalizeFilters_map show modelsRaw = Inr mapped"
      and f: "minTon f = Math_max (Fin 0) min_n" "maxTon f = Math_max (Fin 0) max_n"
        "models f = take 500 (filter (\<lambda>s. s \<noteq> []) mapped)"
    by blast
  have t: "tab f \<in> set [''listing'', ''sale'', ''rent'']"
    using normalizeTab_range[OF tab] by auto
  have lo: "case minTon f of Fin a \<Rightarrow> 0 \<le> a | _ \<Rightarrow> False"
    unfolding f using Math_max_nonneg asNumber_finite[OF mn] by simp
  have hi: "case maxTon f of Fin b \<Rightarrow> 0 \<le> b | _ \<Rightarrow> False"
    unfolding f using Math_max_nonneg asNumber_finite[OF mx] by simp
  have len: "length (models f) \<le> 500" unfolding f by simp
  have "list_all (\<lambda>m. trim m = m) mapped" by (rule normalizeFilters_map_trimmed[OF mp])
  then have "\<forall>m \<in> set (filter (\<lambda>s. s \<noteq> []) mapped). m \<noteq> [] \<and> trim m = m"
    by (auto simp: list_all_iff)
  then have ms: "list_all (\<lambda>m. m \<noteq> [] \<and> trim m = m) (models f)"
    unfolding f list_all_iff using in_set_takeD by fast
  show ?thesis unfolding normalized_def using t lo hi len ms by blast
qed


lemma normalizeFilters_fields:
  assumes "normalizeFilters show input = Inr g"
  shows "\<exists>tab_in min_in min_n max_in max_n models_in modelsRaw mapped.
      get (filters_object input) ''tab'' = Inr tab_in
    \<and> normalizeTab show tab_in = Inr (tab g)
    \<and> get (filters_object input) ''minTon'' = Inr min_in
    \<and> asNumber show min_in (Fin 0) = Inr min_n
    \<and> get (filters_object input) ''maxTon'' = Inr max_in
    \<and> asNumber show max_in (Fin 5000) = Inr max_n
    \<and> get (filters_object input) ''models'' = Inr models_in
    \<and> (if isArray models_in then for_of models_in else Inr []) = Inr modelsRaw
    \<and> normalizeFilters_map show modelsRaw = Inr mapped
    \<and> minTon g = Math_max (Fin 0) min_n \<and> maxTon g = Math_max (Fin 0) max_n
    \<and> models g = take 500 (filter (\<lambda>s. s \<noteq> []) mapped)"
proof -
  from assms obtain tab_in tab' min_in min_n max_in max_n models_in modelsRaw mapped
    where "get (filters_object input) ''tab'' = Inr tab_in"
      and "normalizeTab show tab_in = Inr tab'"
      and "get (filters_object input) ''minTon'' = Inr min_in"
      and "asNumber show min_in (Fin 0) = Inr min_n"
      and "get (filters_object input) ''maxTon'' = Inr max_in"
      and "asNumber show max_in (Fin 5000) = Inr max_n"
      and "get (filters_object input) ''models'' = Inr models_in"
      and "(if isArray models_in then for_of models_in else Inr []) = Inr modelsRaw"
      and "normalizeFilters_map show modelsRaw = Inr mapped"
      and "g = \<lparr>tab = tab', minTon = Math_max (Fin 0) min_n, maxTon = Math_max (Fin 0) max_n,
                models = take 500 (filter (\<lambda>s. s \<noteq> []) mapped)\<rparr>"
    unfolding normalizeFilters_def filters_object_def Let_def bindE_Inr by blast
  then show ?thesis
    apply (rule_tac x = tab_in in exI, rule_tac x = min_in in exI, rule_tac x = min_n in exI)
    apply (rule_tac x = max_in in exI, rule_tac x = max_n in exI, rule_tac x = models_in in exI)
    apply (rule_tac x = modelsRaw in exI, rule_tac x = mapped in exI)
    by simp
qed

lemma normalizeFilters_bounds:
  assumes "normalizeFilters show input = Inr g"
  shows "(\<forall>v x. get (filters_object input) ''minTon'' = Inr v \<and> js_Number show v = Inr x \<longrightarrow>
            minTon g = (if isFinite x then Math_max (Fin 0) x else Fin 0))
       \<and> (\<forall>v x. get (filters_object input) ''maxTon'' = Inr v \<and> js_Number show v = Inr x \<longrightarrow>
            maxTon g = (if isFinite x then Math_max (Fin 0) x else Fin 5000))"
proof -
  from normalizeFilters_fields[OF assms] obtain min_in min_n max_in max_n
    where mn: "get (filters_object input) ''minTon'' = Inr min_in"
        "asNumber show min_in (Fin 0) = Inr min_n"
      and mx: "get (filters_object input) ''maxTon'' = Inr max_in"
        "asNumber show max_in (Fin 5000) = Inr max_n"
      and g: "minTon g = Math_max (Fin 0) min_n" "maxTon g = Math_max (Fin 0) max_n"
    by blast
  have lo: "minTon g = (if isFinite x then Math_max (Fin 0) x else Fin 0)"
    if "get (filters_object input) ''minTon'' = Inr v" "js_Number show v = Inr x" for v x
    using that mn asNumber_value[OF mn(2), of x] g(1) by auto
  have hi: "maxTon g = (if isFinite x then Math_max (Fin 0) x else Fin 5000)"
    if "get (filters_object input) ''maxTon'' = Inr v" "js_Number show v = Inr x" for v x
    using that mx asNumber_value[OF mx(2), of x] g(2) by auto
  show ?thesis using lo hi by blast
qed

lemma normalizeTab_value:
  "normalizeTab show v = Inr t \<Longrightarrow>
   js_String show (if v = Undefined \<or> v = Null then Str [] else v) = Inr s \<Longrightarrow>
   t = (if toLowerCase s = ''sale'' then ''sale''
        else if toLowerCase s = ''rent'' then ''rent'' else ''listing'')"
  by (auto simp: normalizeTab_def nullish_def bindE_def Let_def split: if_splits)

lemma normalizeFilters_tab:
  assumes "normalizeFilters show input = Inr g"
    and "get (filters_object input) ''tab'' = Inr v"
    and "js_String show (if v = Undefined \<or> v = Null then Str [] else v) = Inr s"
  shows "tab g = (if toLowerCase s = ''sale'' then ''sale''
                  else if toLowerCase s = ''rent'' then ''rent'' else ''listing'')"
proof -
  from normalizeFilters_fields[OF assms(1)] obtain tab_in
    where "get (filters_object input) ''tab'' = Inr tab_in" "normalizeTab show tab_in = Inr (tab g)"
    by blast
  then show ?thesis using assms(2,3) normalizeTab_value[of "show" v "tab g" s] by simp
qed

lemma normalizeFilters_models:
  assumes "normalizeFilters show input = Inr g"
    and "get (filters_object input) ''models'' = Inr mv"
  shows "\<exists>mapped. normalizeFilters_map show (case mv of Arr ms \<Rightarrow> ms | _ \<Rightarrow> []) = Inr mapped
           \<and> models g = take 500 (filter (\<lambda>s. s \<noteq> []) mapped)"
proof -
  from normalizeFilters_fields[OF assms(1)] obtain models_in modelsRaw mapped
    where m: "get (filters_object input) ''models'' = Inr models_in"
        "(if isArray models_in then for_of models_in else Inr []) = Inr modelsRaw"
        "normalizeFilters_map show modelsRaw = Inr mapped"
        "models g = take 500 (filter (\<lambda>s. s \<noteq> []) mapped)"
    by blast
  have "modelsRaw = (case mv of Arr ms \<Rightarrow> ms | _ \<Rightarrow> [])"
    using m(1,2) assms(2) by (cases mv) auto
  then show ?thesis using m(3,4) by blast
qed

lemma normalizeFilters_not_object:
  "\<not> (truthy input \<and> typeof input = ''object'') \<Longrightarrow>
   normalizeFilters show input
     = Inr \<lparr>tab = ''listing'', minTon = Fin 0, maxTon = Fin 5000, models = []\<rparr>"
  by (cases "truthy input")
     (simp_all add: normalizeFilters_def normalizeTab_def asNumber_def bindE_def nullish_def
        toLowerCase_def)

lemma put_filters_cases:
  "put_filters show req store = (reply, store') \<Longrightarrow>
   store' = store \<and> (\<forall>key next. reply \<noteq> Inr (Saved key next))
   \<or> (\<exists>key next input. normalizeFilters show input = Inr next
        \<and> store' = store_assign key next store
        \<and> (reply = Inr (Saved key next) \<or> reply = Inl (Error ''write failed'')))"
  unfolding put_filters_def Let_def
  by (auto split: if_splits sum.splits simp: bindE_Inr)

lemma store_assign_own:
  "own_props (store_assign key next store) k = Some f \<Longrightarrow> own_props store k = Some f \<or> f = next"
  by (auto simp: store_assign_def split: if_splits)

lemma store_assign_prototype:
  "prototype (store_assign key next store) = Some f \<Longrightarrow> prototype store = Some f \<or> f = next"
  by (auto simp: store_assign_def split: if_splits)

lemma coercions_kept:
  "js_Number show Null = Inr (Fin 0)"
  "js_Number show (Str []) = Inr (Fin 0)"
  "js_Number show (Arr []) = Inr (Fin 0)"
  "js_Number show (Bool False) = Inr (Fin 0)"
  "js_Number show (Bool True) = Inr (Fin 1)"
  "js_Number show Undefined = Inr NaN"
  by (simp_all add: bindE_def Number_string_def trim_def)

text \<open>
  C10, as stated, fails.  A \<open>maxTon\<close> of \<open>null\<close> is not a number, and it is stored as
  \<open>0\<close>, not as the default \<open>5000\<close>: \<open>Number(null)\<close> is \<open>0\<close>, a finite number, and
  \<open>asNumber\<close> keeps it.
\<close>

theorem C10_null_bound_counterexample:
  "typeof Null \<noteq> ''number''
   \<and> normalizeFilters (\<lambda>n. []) (Obj [(''maxTon'', Null)])
       = Inr \<lparr>tab = ''listing'', minTon = Fin 0, maxTon = Fin 0, models = []\<rparr>
   \<and> put_filters (\<lambda>n. [])
       \<lparr>verified_ok = False, verified_userId = None, token_ok = True,
        req_body = Obj [(''filters'', Obj [(''maxTon'', Null)])], write_ok = True\<rparr>
       \<lparr>own_props = (\<lambda>k. None), prototype = None\<rparr>
     = (Inr (Saved ''default'' \<lparr>tab = ''listing'', minTon = Fin 0, maxTon = Fin 0, models = []\<rparr>),
        \<lparr>own_props = (\<lambda>k. None)(''default'' \<mapsto>
            \<lparr>tab = ''listing'', minTon = Fin 0, maxTon = Fin 0, models = []\<rparr>),
         prototype = None\<rparr>)
   \<and> Fin 0 \<noteq> Fin 5000"
  by (simp add: put_filters_def store_assign_def normalizeFilters_def normalizeTab_def asNumber_def
      bindE_def nullish_def falsy_string_def toLowerCase_def Let_def)

text \<open>
  C10 (amended).  Whatever the request body, \<open>PUT /api/filters\<close> writes to the store
  (as an own property, or as its prototype for the key \<open>__proto__\<close>) only a record that
  \<open>normalizeFilters\<close> returned, and such a record is normalized: its mode is \<open>listing\<close>,
  \<open>sale\<close> or \<open>rent\<close>, both bounds are finite and at least \<open>0\<close>, and its models are at most
  500 strings, none empty, each equal to its own trim.  The mode is \<open>sale\<close> or \<open>rent\<close>
  when the input's string is that word in any case, and \<open>listing\<close> otherwise.  A bound is
  the default (\<open>0\<close>, \<open>5000\<close>) when \<open>Number\<close> of the input is not finite; otherwise it is
  that number, or \<open>0\<close> when the number is negative: \<open>null\<close>, the empty string, the empty
  array and \<open>false\<close> are kept as \<open>0\<close> and \<open>true\<close> as \<open>1\<close>.  A body without a filter
  object gives the defaults.
\<close>

theorem C10_stored_filters_normalized:
  "(put_filters show req store = (reply, store') \<longrightarrow>
      (\<forall>k f. own_props store' k = Some f \<longrightarrow> own_props store k = Some f \<or> normalized f)
      \<and> (\<forall>f. prototype store' = Some f \<longrightarrow> prototype store = Some f \<or> normalized f))
   \<and> (put_filters show req store = (Inr (Saved key next), store') \<longrightarrow>
        store' = store_assign key next store \<and> normalized next)
   \<and> (put_filters show req store = (Inr Unauthorized, store') \<longrightarrow> store' = store)
   \<and> (normalizeFilters show input = Inr g \<longrightarrow> normalized g)
   \<and> (normalizeFilters show input = Inr g \<and> get (filters_object input) ''tab'' = Inr tv
        \<and> js_String show (if tv = Undefined \<or> tv = Null then Str [] else tv) = Inr s \<longrightarrow>
        tab g = (if toLowerCase s = ''sale'' then ''sale''
                 else if toLowerCase s = ''rent'' then ''rent'' else ''listing''))
   \<and> (normalizeFilters show input = Inr g \<and> get (filters_object input) ''minTon'' = Inr v
        \<and> js_Number show v = Inr x \<longrightarrow>
        minTon g = (if isFinite x then Math_max (Fin 0) x else Fin 0))
   \<and> (normalizeFilters show input = Inr g \<and> get (filters_object input) ''maxTon'' = Inr v
        \<and> js_Number show v = Inr x \<longrightarrow>
        maxTon g = (if isFinite x then Math_max (Fin 0) x else Fin 5000))
   \<and> (normalizeFilters show input = Inr g \<and> get (filters_object input) ''models'' = Inr mv \<longrightarrow>
        (\<exists>mapped. normalizeFilters_map show (case mv of Arr ms \<Rightarrow> ms | _ \<Rightarrow> []) = Inr mapped
           \<and> models g = take 500 (filter (\<lambda>s. s \<noteq> []) mapped)))
   \<and> Math_max (Fin 0) (Fin a) = Fin (max 0 a)
   \<and> js_Number show Null = Inr (Fin 0) \<and> js_Number show (Str []) = Inr (Fin 0)
   \<and> js_Number show (Arr []) = Inr (Fin 0) \<and> js_Number show (Bool False) = Inr (Fin 0)
   \<and> js_Number show (Bool True) = Inr (Fin 1) \<and> js_Number show Undefined = Inr NaN
   \<and> (\<not> (truthy input \<and> typeof input = ''object'') \<longrightarrow>
        normalizeFilters show input
          = Inr \<lparr>tab = ''listing'', minTon = Fin 0, maxTon = Fin 5000, models = []\<rparr>)"
proof -
  have stored: "(\<forall>k f. own_props store' k = Some f \<longrightarrow> own_props store k = Some f \<or> normalized f)
      \<and> (\<forall>f. prototype store' = Some f \<longrightarrow> prototype store = Some f \<or> normalized f)"
    if run: "put_filters show req store = (reply, store')"
  proof -
    from put_filters_cases[OF run] show ?thesis
    proof
      assume "store' = store \<and> (\<forall>key next. reply \<noteq> Inr (Saved key next))"
      then show ?thesis by simp
    next
      assume "\<exists>key next input. normalizeFilters show input = Inr next
        \<and> store' = store_assign key next store
        \<and> (reply = Inr (Saved key next) \<or> reply = Inl (Error ''write failed''))"
      then obtain key' nxt input' where n: "normalizeFilters show input' = Inr nxt"
        and st: "store' = store_assign key' nxt store" by blast
      have "normalized nxt" using normalizeFilters_normalized[OF n] .
      then show ?thesis
        unfolding st using store_assign_own[of key' nxt store] store_assign_prototype[of key' nxt store]
        by blast
    qed
  qed
  have saved: "store' = store_assign key next store \<and> normalized next"
    if "put_filters show req store = (Inr (Saved key next), store')"
    using put_filters_cases[OF that] normalizeFilters_normalized
    by auto
  have unauth: "store' = store" if "put_filters show req store = (Inr Unauthorized, store')"
    using put_filters_cases[OF that] by auto
  have mode: "tab g = (if toLowerCase s = ''sale'' then ''sale''
                 else if toLowerCase s = ''rent'' then ''rent'' else ''listing'')"
    if "normalizeFilters show input = Inr g" "get (filters_object input) ''tab'' = Inr tv"
      "js_String show (if tv = Undefined \<or> tv = Null then Str [] else tv) = Inr s"
    using normalizeFilters_tab[OF that] .
  have mods: "\<exists>mapped. normalizeFilters_map show (case mv of Arr ms \<Rightarrow> ms | _ \<Rightarrow> []) = Inr mapped
           \<and> models g = take 500 (filter (\<lambda>s. s \<noteq> []) mapped)"
    if "normalizeFilters show input = Inr g" "get (filters_object input) ''models'' = Inr mv"
    using normalizeFilters_models[OF that] .
  show ?thesis
    using stored saved unauth mode mods normalizeFilters_normalized[of "show" input g]
      normalizeFilters_bounds[of "show" input g] Math_max_zero[of a]
      normalizeFilters_not_object[of input "show"] coercions_kept[of "show"]
    by blast
qed

theorem C10_stored_filters_normalized_witness:
  "put_filters (\<lambda>n. ''0'')
     \<lparr>verified_ok = False, verified_userId = None, token_ok = True,
      req_body = Obj [(''userKey'', Str ''u1''),
                      (''filters'', Obj [(''tab'', Str ''SALE''), (''minTon'', Num (Fin (- 5))),
                                         (''maxTon'', Str ''abc''),
                                         (''models'', Arr [Str '' Pepe '', Str ''  ''])])],
      write_ok = True\<rparr> \<lparr>own_props = (\<lambda>k. None), prototype = None\<rparr>
   = (Inr (Saved ''u1'' \<lparr>tab = ''sale'', minTon = Fin 0, maxTon = Fin 5000, models = [''Pepe'']\<rparr>),
      \<lparr>own_props = (\<lambda>k. None)(''u1'' \<mapsto>
          \<lparr>tab = ''sale'', minTon = Fin 0, maxTon = Fin 5000, models = [''Pepe'']\<rparr>),
       prototype = None\<rparr>)
   \<and> normalized \<lparr>tab = ''sale'', minTon = Fin 0, maxTon = Fin 5000, models = [''Pepe'']\<rparr>
   \<and> snd (put_filters (\<lambda>n. ''0'')
     \<lparr>verified_ok = False, verified_userId = None, token_ok = True,
      req_body = Obj [(''userKey'', Str ''__proto__''), (''filters'', Obj [])],
      write_ok = True\<rparr> \<lparr>own_props = (\<lambda>k. None), prototype = None\<rparr>)
     = \<lparr>own_props = (\<lambda>k. None),
        prototype = Some \<lparr>tab = ''listing'', minTon = Fin 0, maxTon = Fin 5000, models = []\<rparr>\<rparr>"
proof -
  have run: "put_filters (\<lambda>n. ''0'')
     \<lparr>verified_ok = False, verified_userId = None, token_ok = True,
      req_body = Obj [(''userKey'', Str ''u1''),
                      (''filters'', Obj [(''tab'', Str ''SALE''), (''minTon'', Num (Fin (- 5))),
                                         (''maxTon'', Str ''abc''),
                                         (''models'', Arr [Str '' Pepe '', Str ''  ''])])],
      write_ok = True\<rparr> \<lparr>own_props = (\<lambda>k. None), prototype = None\<rparr>
   = (Inr (Saved ''u1'' \<lparr>tab = ''sale'', minTon = Fin 0, maxTon = Fin 5000, models = [''Pepe'']\<rparr>),
      \<lparr>own_props = (\<lambda>k. None)(''u1'' \<mapsto>
          \<lparr>tab = ''sale'', minTon = Fin 0, maxTon = Fin 5000, models = [''Pepe'']\<rparr>),
       prototype = None\<rparr>)"
    by (simp add: put_filters_def store_assign_def normalizeFilters_def normalizeTab_def
        asNumber_def bindE_def
        nullish_def falsy_string_def toLowerCase_def toLowerCase_char_def trim_def is_ws_def
        Number_string_def startsWith_def unsigned_decimal_def is_digit_def digit_in_base_def
        Let_def)
  have proto: "snd (put_filters (\<lambda>n. ''0'')
     \<lparr>verified_ok = False, verified_userId = None, token_ok = True,
      req_body = Obj [(''userKey'', Str ''__proto__''), (''filters'', Obj [])],
      write_ok = True\<rparr> \<lparr>own_props = (\<lambda>k. None), prototype = None\<rparr>)
     = \<lparr>own_props = (\<lambda>k. None),
        prototype = Some \<lparr>tab = ''listing'', minTon = Fin 0, maxTon = Fin 5000, models = []\<rparr>\<rparr>"
    by (simp add: put_filters_def store_assign_def normalizeFilters_def normalizeTab_def
        asNumber_def bindE_def nullish_def falsy_string_def toLowerCase_def Let_def)
  show ?thesis
    using run proto C10_stored_filters_normalized
      [of "\<lambda>n. ''0''" _ "\<lparr>own_props = (\<lambda>k. None), prototype = None\<rparr>" _ _ "''u1''"
          "\<lparr>tab = ''sale'', minTon = Fin 0, maxTon = Fin 5000, models = [''Pepe'']\<rparr>"]
    by blast
qed

subsection \<open>Recent sales of a model\<close>

declare findFirstAddressByKeys.simps [simp del] findFirstNumberLike.simps [simp del]
  findFirstStringByKeys.simps [simp del]

lemma nullish_total: "(\<exists>v. b = Inr v) \<Longrightarrow> \<exists>v. nullish a b = Inr v"
  by (auto simp: nullish_def)

lemma extractFromNftItem_attrs_total: "\<exists>r. extractFromNftItem_attrs as res = Inr r"
proof (induction as arbitrary: res)
  case Nil
  show ?case by simp
next
  case (Cons a as)
  show ?case
  proof (cases "\<not> truthy a \<or> typeof a \<noteq> ''object''")
    case True
    then show ?thesis using Cons.IH[of res] by auto
  next
    case False
    then have t: "truthy a" by simp
    obtain t1 where t1: "get a ''trait_type'' = Inr t1" using get_truthy[OF t] by blast
    obtain t2 where t2: "nullish t1 (get a ''key'') = Inr t2"
      using nullish_total[OF get_truthy[OF t]] by blast
    obtain trait where t3: "nullish t2 (get a ''type'') = Inr trait"
      using nullish_total[OF get_truthy[OF t]] by blast
    obtain v1 where v1: "get a ''value'' = Inr v1" using get_truthy[OF t] by blast
    obtain val where v2: "nullish v1 (get a ''val'') = Inr val"
      using nullish_total[OF get_truthy[OF t]] by blast
    show ?thesis
      using False t1 t2 t3 v1 v2 Cons.IH
      by (auto simp: bindE_def Let_def split: jsval.splits)
  qed
qed

lemma extractFromNftItem_model_total: "\<exists>r. extractFromNftItem_model nft = Inr r"
proof (cases "\<not> truthy nft \<or> typeof nft \<noteq> ''object''")
  case True
  then show ?thesis by (auto simp: extractFromNftItem_model_def)
next
  case False
  then have t: "truthy nft" by simp
  obtain m1 where m1: "get nft ''metadata'' = Inr m1" using get_truthy[OF t] by blast
  obtain metadata where md: "nullish m1 (get nft ''content'') = Inr metadata"
    using nullish_total[OF get_truthy[OF t]] by blast
  show ?thesis
  proof (cases "truthy metadata \<and> typeof metadata = ''object''")
    case no: False
    then show ?thesis using False m1 md by (auto simp: extractFromNftItem_model_def bindE_def)
  next
    case yes: True
    then have tm: "truthy metadata" by simp
    obtain name where nm: "get metadata ''name'' = Inr name" using get_truthy[OF tm] by blast
    obtain attrs where at: "get metadata ''attributes'' = Inr attrs" using get_truthy[OF tm] by blast
    show ?thesis
    proof (cases "isArray attrs")
      case True
      then obtain as where as: "for_of attrs = Inr as" using for_of_array by blast
      show ?thesis
        using False m1 md yes nm at True as extractFromNftItem_attrs_total
        by (simp add: extractFromNftItem_model_def bindE_def Let_def)
    next
      case False
      then show ?thesis
        using \<open>\<not> (\<not> truthy nft \<or> typeof nft \<noteq> ''object'')\<close> m1 md yes nm at
        by (simp add: extractFromNftItem_model_def bindE_def Let_def)
    qed
  qed
qed

lemma getModelByNftAddressCached_result:
  "\<exists>cache'. getModelByNftAddressCached now nfts a cache = (Inr (asset_model now nfts cache a), cache')"
proof -
  obtain r where r: "extractFromNftItem_model (tonapiGetNftItemByAddress (nfts a)) = Inr r"
    using extractFromNftItem_model_total by blast
  show ?thesis
    unfolding asset_model_def getModelByNftAddressCached_def using r by (simp add: Let_def)
qed

lemma asset_model_stable:
  "asset_model now nfts (snd (getModelByNftAddressCached now nfts a cache)) b
     = asset_model now nfts cache b"
proof -
  obtain r where r: "extractFromNftItem_model (tonapiGetNftItemByAddress (nfts a)) = Inr r"
    using extractFromNftItem_model_total by blast
  obtain rb where rb: "extractFromNftItem_model (tonapiGetNftItemByAddress (nfts b)) = Inr rb"
    using extractFromNftItem_model_total by blast
  show ?thesis
    unfolding asset_model_def getModelByNftAddressCached_def using r rb
    by (auto simp: Let_def NFT_MODEL_CACHE_TTL_MS_def split: option.splits)
qed

lemma getActionType_total: "truthy act \<Longrightarrow> \<exists>t. getActionType act = Inr t"
proof -
  assume t: "truthy act"
  obtain a b c where "get act ''type'' = Inr a" "get act ''action_type'' = Inr b"
    "get act ''kind'' = Inr c"
    using get_truthy[OF t] by blast
  then show ?thesis by (simp add: getActionType_def bindE_def)
qed

lemma nftpurchase_includes_purchase:
  assumes "str_includes s ''nftpurchase''"
  shows "str_includes s ''purchase''"
proof -
  have l11: "length ''nftpurchase'' = 11" and l8: "length ''purchase'' = 8" by simp_all
  from assms have "\<exists>i \<in> set [0..<Suc (length s)].
      take (length ''nftpurchase'') (drop i s) = ''nftpurchase''"
    unfolding str_includes_def list_ex_iff .
  then obtain i where i: "take 11 (drop i s) = ''nftpurchase''"
    unfolding l11 by blast
  have "length (take 11 (drop i s)) = 11" unfolding i by simp
  then have "min (length s - i) 11 = 11" by simp
  then have "i + 3 \<le> length s" by linarith
  then have "i + 3 < Suc (length s)" by linarith
  then have bound: "i + 3 \<in> set [0..<Suc (length s)]" by (simp only: set_upt atLeastLessThan_iff le0 simp_thms)
  have "take 8 (drop (i + 3) s) = drop 3 (take 11 (drop i s))"
    by (simp add: drop_take add.commute)
  then have "take 8 (drop (i + 3) s) = ''purchase''" unfolding i by simp
  then have "\<exists>j \<in> set [0..<Suc (length s)]. take 8 (drop j s) = ''purchase''"
    using bound by blast
  then show ?thesis unfolding str_includes_def list_ex_iff l8 .
qed


lemma js_le_zero: "isFinite t \<Longrightarrow> js_le t (Fin 0) = (\<not> js_lt (Fin 0) t)"
  by (cases t) auto

lemma getRecentSales_action_spec:
  "\<exists>cache'. getRecentSales_action now nfts m act cache
              = (Inr (qualifying_price now nfts cache m act), cache')
            \<and> (\<forall>b. asset_model now nfts cache' b = asset_model now nfts cache b)"
proof (cases "truthy act \<and> typeof act = ''object''")
  case False
  then show ?thesis
    by (auto simp: getRecentSales_action_def qualifying_price_def)
next
  case obj: True
  then obtain ty where ty: "getActionType act = Inr ty" using getActionType_total by blast
  have at: "action_type act = (case ty of None \<Rightarrow> [] | Some t \<Rightarrow> t)"
    by (simp add: action_type_def ty split: option.splits)
  let ?type = "toLowerCase (case ty of None \<Rightarrow> [] | Some t \<Rightarrow> t)"
  show ?thesis
  proof (cases "str_includes ?type ''purchase''")
    case False
    then have "\<not> str_includes ?type ''nftpurchase''"
      using nftpurchase_includes_purchase by blast
    then show ?thesis using obj ty at False
      by (auto simp: getRecentSales_action_def qualifying_price_def Let_def)
  next
    case purchase: True
    obtain addr where addr: "findFirstAddressByKeys act NFT_ADDRESS_KEYS = Inr addr"
      using findFirstAddressByKeys_total(1) by blast
    show ?thesis
    proof (cases "falsy_string addr")
      case True
      then show ?thesis using obj ty at purchase addr
        by (auto simp: getRecentSales_action_def qualifying_price_def Let_def falsy_string_def
            split: option.splits)
    next
      case False
      then obtain a where a: "addr = Some a" "a \<noteq> []"
        by (auto simp: falsy_string_def split: option.splits)
      obtain cache' where g: "getModelByNftAddressCached now nfts a cache
          = (Inr (asset_model now nfts cache a), cache')"
        using getModelByNftAddressCached_result by blast
      have st: "\<forall>b. asset_model now nfts cache' b = asset_model now nfts cache b"
        using asset_model_stable[of now nfts a cache] g by simp
      obtain raw where raw: "findFirstNumberLike act AMOUNT_KEYS = Inr raw"
        using findFirstNumberLike_total(1) by blast
      have "getRecentSales_action now nfts m act cache
              = (Inr (qualifying_price now nfts cache m act), cache')"
        using obj ty at purchase addr a g raw
        by (auto simp: getRecentSales_action_def qualifying_price_def Let_def falsy_string_def
            js_le_zero split: option.splits)
      then show ?thesis using st by blast
    qed
  qed
qed

lemma qualifying_price_cong:
  assumes "\<forall>b. asset_model now nfts cache' b = asset_model now nfts cache b"
  shows "qualifying_price now nfts cache' m act = qualifying_price now nfts cache m act"
proof -
  have same: "asset_model now nfts cache' = asset_model now nfts cache"
    using assms by (intro ext) simp
  show ?thesis unfolding qualifying_price_def same ..
qed

lemma qualifying_prices_cong:
  "(\<forall>b. asset_model now nfts cache' b = asset_model now nfts cache b) \<Longrightarrow>
   qualifying_prices now nfts cache' m acts = qualifying_prices now nfts cache m acts"
  using qualifying_price_cong[of now nfts cache' cache m]
  by (simp add: qualifying_prices_def map_filter_def)

lemma qualifying_prices_Cons:
  "qualifying_prices now nfts cache m (act # acts) =
     (case qualifying_price now nfts cache m act of
        None \<Rightarrow> qualifying_prices now nfts cache m acts
      | Some p \<Rightarrow> p # qualifying_prices now nfts cache m acts)"
  by (simp add: qualifying_prices_def map_filter_simps split: option.splits)

lemma qualifying_prices_append:
  "qualifying_prices now nfts cache m (xs @ ys) =
     qualifying_prices now nfts cache m xs @ qualifying_prices now nfts cache m ys"
  by (simp add: qualifying_prices_def map_filter_def)

lemma qualifying_prices_Nil: "qualifying_prices now nfts cache m [] = []"
  by (simp add: qualifying_prices_def map_filter_simps)

lemma capped_full: "length prices \<ge> RECENT_SALES_MAX \<Longrightarrow> capped prices q = prices"
  by (simp add: capped_def)

lemma capped_Nil: "capped prices [] = prices"
  by (simp add: capped_def)

lemma capped_Cons:
  assumes "length prices < RECENT_SALES_MAX"
  shows "capped prices (p # q) = capped (prices @ [p]) q"
proof -
  have "RECENT_SALES_MAX - length prices = Suc (RECENT_SALES_MAX - Suc (length prices))"
    using assms by linarith
  then show ?thesis by (simp add: capped_def)
qed

lemma capped_append: "capped (capped prices q) q' = capped prices (q @ q')"
  by (simp add: capped_def min_def)

lemma getRecentSales_actions_spec:
  assumes "\<forall>b. asset_model now nfts cache b = asset_model now nfts cache0 b"
  shows "\<exists>cache'. getRecentSales_actions now nfts m acts prices cache
            = (Inr (capped prices (qualifying_prices now nfts cache0 m acts)), cache')
          \<and> (\<forall>b. asset_model now nfts cache' b = asset_model now nfts cache0 b)"
  using assms
proof (induction acts arbitrary: prices cache)
  case Nil
  then show ?case by (simp add: qualifying_prices_Nil capped_Nil)
next
  case (Cons act acts)
  show ?case
  proof (cases "length prices \<ge> RECENT_SALES_MAX")
    case True
    then show ?thesis using Cons.prems by (simp add: capped_full)
  next
    case False
    obtain cache1 where step: "getRecentSales_action now nfts m act cache
          = (Inr (qualifying_price now nfts cache m act), cache1)"
      and st: "\<forall>b. asset_model now nfts cache1 b = asset_model now nfts cache b"
      using getRecentSales_action_spec by blast
    have same: "qualifying_price now nfts cache m act = qualifying_price now nfts cache0 m act"
      using qualifying_price_cong[OF Cons.prems] .
    have inv: "\<forall>b. asset_model now nfts cache1 b = asset_model now nfts cache0 b"
      using st Cons.prems by simp
    show ?thesis
    proof (cases "qualifying_price now nfts cache0 m act")
      case None
      then show ?thesis
        using False step same Cons.IH[OF inv, of prices]
        by (simp add: qualifying_prices_Cons)
    next
      case (Some p)
      then show ?thesis
        using False step same Cons.IH[OF inv, of "prices @ [p]"]
        by (simp add: qualifying_prices_Cons capped_Cons)
    qed
  qed
qed


lemma event_actions_skip:
  "\<not> truthy ev \<or> typeof ev \<noteq> ''object'' \<Longrightarrow> event_actions ev = []"
  by (auto simp: event_actions_def)

lemma event_actions_not_array:
  "get ev ''actions'' = Inr actions \<Longrightarrow> \<not> isArray actions \<Longrightarrow> event_actions ev = []"
  by (cases actions) (auto simp: event_actions_def)

lemma event_actions_array:
  "truthy ev \<Longrightarrow> typeof ev = ''object'' \<Longrightarrow> get ev ''actions'' = Inr actions \<Longrightarrow>
   isArray actions \<Longrightarrow> for_of actions = Inr (event_actions ev)"
  by (cases actions) (auto simp: event_actions_def)

lemma getRecentSales_events_spec:
  assumes "\<forall>b. asset_model now nfts cache b = asset_model now nfts cache0 b"
  shows "\<exists>cache'. getRecentSales_events now nfts m evs prices cache
            = (Inr (capped prices
                     (qualifying_prices now nfts cache0 m (concat (map event_actions evs)))),
               cache')
          \<and> (\<forall>b. asset_model now nfts cache' b = asset_model now nfts cache0 b)"
  using assms
proof (induction evs arbitrary: prices cache)
  case Nil
  then show ?case by (simp add: qualifying_prices_Nil capped_Nil)
next
  case (Cons ev evs)
  show ?case
  proof (cases "length prices \<ge> RECENT_SALES_MAX")
    case True
    then show ?thesis using Cons.prems by (simp add: capped_full)
  next
    case room: False
    show ?thesis
    proof (cases "\<not> truthy ev \<or> typeof ev \<noteq> ''object''")
      case True
      then show ?thesis
        using room event_actions_skip[OF True] Cons.IH[OF Cons.prems, of prices] by auto
    next
      case obj: False
      then have t: "truthy ev" and o: "typeof ev = ''object''" by simp_all
      obtain actions where actions: "get ev ''actions'' = Inr actions"
        using get_truthy[OF t] by blast
      show ?thesis
      proof (cases "isArray actions")
        case False
        then show ?thesis
          using room obj actions event_actions_not_array[OF actions False]
            Cons.IH[OF Cons.prems, of prices]
          by auto
      next
        case True
        have acts: "for_of actions = Inr (event_actions ev)"
          using event_actions_array[OF t o actions True] .
        obtain cache1 where inner: "getRecentSales_actions now nfts m (event_actions ev) prices cache
            = (Inr (capped prices (qualifying_prices now nfts cache0 m (event_actions ev))), cache1)"
          and inv: "\<forall>b. asset_model now nfts cache1 b = asset_model now nfts cache0 b"
          using getRecentSales_actions_spec[OF Cons.prems] by blast
        show ?thesis
          using room obj actions True acts inner
            Cons.IH[OF inv, of "capped prices (qualifying_prices now nfts cache0 m (event_actions ev))"]
          by (simp add: capped_append qualifying_prices_append)
      qed
    qed
  qed
qed

lemma market_events_skip:
  "\<not> truthy (tonapiGetAccountEvents (activity a))
     \<or> typeof (tonapiGetAccountEvents (activity a)) \<noteq> ''object'' \<Longrightarrow>
   market_events activity a = []"
  by (auto simp: market_events_def Let_def)

lemma market_events_not_array:
  "get (tonapiGetAccountEvents (activity a)) ''events'' = Inr list \<Longrightarrow> \<not> isArray list \<Longrightarrow>
   market_events activity a = []"
  by (cases list) (auto simp: market_events_def Let_def)

lemma market_events_array:
  "truthy (tonapiGetAccountEvents (activity a)) \<Longrightarrow>
   typeof (tonapiGetAccountEvents (activity a)) = ''object'' \<Longrightarrow>
   get (tonapiGetAccountEvents (activity a)) ''events'' = Inr list \<Longrightarrow> isArray list \<Longrightarrow>
   for_of list = Inr (market_events activity a)"
  by (cases list) (auto simp: market_events_def Let_def)

lemma actions_in_order_Cons:
  "actions_in_order activity (a # accounts) =
     concat (map event_actions (market_events activity a)) @ actions_in_order activity accounts"
  by (simp add: actions_in_order_def)

lemma getRecentSales_markets_spec:
  assumes "\<forall>b. asset_model now nfts cache b = asset_model now nfts cache0 b"
  shows "\<exists>cache'. getRecentSales_markets now activity nfts m accounts prices cache
            = (Inr (capped prices
                     (qualifying_prices now nfts cache0 m (actions_in_order activity accounts))),
               cache')
          \<and> (\<forall>b. asset_model now nfts cache' b = asset_model now nfts cache0 b)"
  using assms
proof (induction accounts arbitrary: prices cache)
  case Nil
  then show ?case by (simp add: actions_in_order_def qualifying_prices_Nil capped_Nil)
next
  case (Cons a accounts)
  let ?events = "tonapiGetAccountEvents (activity a)"
  show ?case
  proof (cases "length prices \<ge> RECENT_SALES_MAX")
    case True
    then show ?thesis using Cons.prems by (simp add: capped_full)
  next
    case room: False
    show ?thesis
    proof (cases "\<not> truthy ?events \<or> typeof ?events \<noteq> ''object''")
      case True
      then show ?thesis
        using room market_events_skip[of activity a] Cons.IH[OF Cons.prems, of prices]
        by (auto simp: actions_in_order_Cons Let_def)
    next
      case obj: False
      then have t: "truthy ?events" and o: "typeof ?events = ''object''" by simp_all
      obtain list where list: "get ?events ''events'' = Inr list"
        using get_truthy[OF t] by blast
      show ?thesis
      proof (cases "isArray list")
        case False
        then show ?thesis
          using room obj list market_events_not_array[of activity a list]
            Cons.IH[OF Cons.prems, of prices]
          by (auto simp: actions_in_order_Cons Let_def)
      next
        case True
        have evs: "for_of list = Inr (market_events activity a)"
          using market_events_array[of activity a list] t o list True by blast
        let ?q = "qualifying_prices now nfts cache0 m
                    (concat (map event_actions (market_events activity a)))"
        obtain cache1 where inner:
          "getRecentSales_events now nfts m (market_events activity a) prices cache
             = (Inr (capped prices ?q), cache1)"
          and inv: "\<forall>b. asset_model now nfts cache1 b = asset_model now nfts cache0 b"
          using getRecentSales_events_spec[OF Cons.prems] by blast
        show ?thesis
          using room obj list True evs inner Cons.IH[OF inv, of "capped prices ?q"]
          by (simp add: capped_append qualifying_prices_append actions_in_order_Cons Let_def)
      qed
    qed
  qed
qed


lemma qualifying_price_SomeD:
  assumes "qualifying_price now nfts cache m act = Some p"
  shows "str_includes (toLowerCase (action_type act)) ''purchase''
       \<and> isFinite p \<and> js_lt (Fin 0) p
       \<and> (\<exists>a found. findFirstAddressByKeys act NFT_ADDRESS_KEYS = Inr (Some a)
             \<and> asset_model now nfts cache a = Some found
             \<and> toLowerCase found = toLowerCase m)
       \<and> (\<exists>raw. findFirstNumberLike act AMOUNT_KEYS = Inr (Some raw) \<and> p = toTonMaybe raw)"
  using assms unfolding qualifying_price_def
  by (auto split: if_splits sum.splits option.splits)

lemma getRecentSalesForModel_cases:
  "\<exists>cache'.
     getRecentSalesForModel now cfg activity nfts model_name cache sales =
       (if trim model_name = [] then (Inr None, cache, sales)
        else if (case sales (toLowerCase (trim model_name)) of None \<Rightarrow> False
                 | Some e \<Rightarrow> now - sales_at e < RECENT_SALES_CACHE_TTL_MS)
        then (Inr (Some (sales_prices (the (sales (toLowerCase (trim model_name)))))), cache, sales)
        else
          (Inr (if take RECENT_SALES_MAX
                     (qualifying_prices now nfts cache (trim model_name)
                        (actions_in_order activity (getMarketsSet cfg))) = []
                then None
                else Some (take RECENT_SALES_MAX
                     (qualifying_prices now nfts cache (trim model_name)
                        (actions_in_order activity (getMarketsSet cfg))))),
           cache',
           sales(toLowerCase (trim model_name) \<mapsto>
             \<lparr>sales_at = now,
              sales_prices = take RECENT_SALES_MAX
                     (qualifying_prices now nfts cache (trim model_name)
                        (actions_in_order activity (getMarketsSet cfg)))\<rparr>)))"
proof -
  let ?m = "trim model_name"
  let ?q = "qualifying_prices now nfts cache ?m (actions_in_order activity (getMarketsSet cfg))"
  obtain cache' where loop:
    "getRecentSales_markets now activity nfts ?m (getMarketsSet cfg) [] cache
       = (Inr (capped [] ?q), cache')"
    using getRecentSales_markets_spec[of now nfts cache cache activity ?m "getMarketsSet cfg" "[]"]
    by blast
  have cap: "capped [] ?q = take RECENT_SALES_MAX ?q"
    by (simp add: capped_def)
  show ?thesis
    unfolding getRecentSalesForModel_def Let_def
    using loop cap by (intro exI[of _ cache']) auto
qed

lemma getRecentSalesForModel_at_most:
  assumes inv: "\<forall>k e. sales k = Some e \<longrightarrow> length (sales_prices e) \<le> RECENT_SALES_MAX"
    and run: "getRecentSalesForModel now cfg activity nfts model_name cache sales = (r, cache', sales')"
  shows "(r = Inr None \<or> (\<exists>ps. r = Inr (Some ps) \<and> length ps \<le> RECENT_SALES_MAX))
       \<and> (\<forall>k e. sales' k = Some e \<longrightarrow> length (sales_prices e) \<le> RECENT_SALES_MAX)"
proof -
  obtain c where c: "getRecentSalesForModel now cfg activity nfts model_name cache sales =
       (if trim model_name = [] then (Inr None, cache, sales)
        else if (case sales (toLowerCase (trim model_name)) of None \<Rightarrow> False
                 | Some e \<Rightarrow> now - sales_at e < RECENT_SALES_CACHE_TTL_MS)
        then (Inr (Some (sales_prices (the (sales (toLowerCase (trim model_name)))))), cache, sales)
        else
          (Inr (if take RECENT_SALES_MAX
                     (qualifying_prices now nfts cache (trim model_name)
                        (actions_in_order activity (getMarketsSet cfg))) = []
                then None
                else Some (take RECENT_SALES_MAX
                     (qualifying_prices now nfts cache (trim model_name)
                        (actions_in_order activity (getMarketsSet cfg))))),
           c,
           sales(toLowerCase (trim model_name) \<mapsto>
             \<lparr>sales_at = now,
              sales_prices = take RECENT_SALES_MAX
                     (qualifying_prices now nfts cache (trim model_name)
                        (actions_in_order activity (getMarketsSet cfg)))\<rparr>)))"
    using getRecentSalesForModel_cases by blast
  show ?thesis
  proof (cases "trim model_name = []")
    case True
    then show ?thesis using c run inv by simp
  next
    case named: False
    show ?thesis
    proof (cases "case sales (toLowerCase (trim model_name)) of None \<Rightarrow> False
                 | Some e \<Rightarrow> now - sales_at e < RECENT_SALES_CACHE_TTL_MS")
      case True
      then obtain e where e: "sales (toLowerCase (trim model_name)) = Some e"
        by (auto split: option.splits)
      then have "length (sales_prices e) \<le> RECENT_SALES_MAX" using inv by blast
      then show ?thesis using c run inv named True e by simp
    next
      case False
      then show ?thesis using c run inv named by (auto split: if_splits)
    qed
  qed
qed

text \<open>
  C8.  \<open>getRecentSalesForModel\<close> returns at most \<open>RECENT_SALES_MAX = 3\<close> prices, and
  so does every entry it caches.  When it scans (the model name is not blank and the
  recent-sales cache has no fresh entry for it) the prices are the first three
  qualifying prices of the actions taken market by market, event by event, action by
  action (\<open>null\<close> when there is none).  A qualifying price comes from an action whose type
  contains \<open>purchase\<close>, whose asset has the requested model (both lower-cased) and whose
  amount is finite and positive.  A loop entered with three prices returns at once: it
  reads no further action, event or market and leaves the model cache alone.
\<close>

theorem C8_recent_sales_first_three:
  "(trim model_name \<noteq> []
    \<and> (sales (toLowerCase (trim model_name)) = None
       \<or> (\<exists>e. sales (toLowerCase (trim model_name)) = Some e
             \<and> \<not> now - sales_at e < RECENT_SALES_CACHE_TTL_MS)) \<longrightarrow>
    (\<exists>cache'.
       getRecentSalesForModel now cfg activity nfts model_name cache sales =
         (Inr (if take RECENT_SALES_MAX
                    (qualifying_prices now nfts cache (trim model_name)
                       (actions_in_order activity (getMarketsSet cfg))) = []
               then None
               else Some (take RECENT_SALES_MAX
                    (qualifying_prices now nfts cache (trim model_name)
                       (actions_in_order activity (getMarketsSet cfg))))),
          cache',
          sales(toLowerCase (trim model_name) \<mapsto>
            \<lparr>sales_at = now,
             sales_prices = take RECENT_SALES_MAX
                    (qualifying_prices now nfts cache (trim model_name)
                       (actions_in_order activity (getMarketsSet cfg)))\<rparr>))))
   \<and> ((\<forall>k e. sales k = Some e \<longrightarrow> length (sales_prices e) \<le> RECENT_SALES_MAX)
        \<and> getRecentSalesForModel now cfg activity nfts model_name cache sales = (r, cache1, sales1)
        \<longrightarrow>
        (r = Inr None \<or> (\<exists>ps. r = Inr (Some ps) \<and> length ps \<le> RECENT_SALES_MAX))
        \<and> (\<forall>k e. sales1 k = Some e \<longrightarrow> length (sales_prices e) \<le> RECENT_SALES_MAX))
   \<and> RECENT_SALES_MAX = 3
   \<and> (qualifying_price now nfts cache m act = Some p \<longrightarrow>
        str_includes (toLowerCase (action_type act)) ''purchase''
        \<and> isFinite p \<and> js_lt (Fin 0) p
        \<and> (\<exists>a found. findFirstAddressByKeys act NFT_ADDRESS_KEYS = Inr (Some a)
              \<and> asset_model now nfts cache a = Some found
              \<and> toLowerCase found = toLowerCase m))
   \<and> (length prices \<ge> RECENT_SALES_MAX \<longrightarrow>
        getRecentSales_actions now nfts m acts prices cache = (Inr prices, cache)
        \<and> getRecentSales_events now nfts m evs prices cache = (Inr prices, cache)
        \<and> getRecentSales_markets now activity nfts m accounts prices cache = (Inr prices, cache))"
proof -
  let ?m = "trim model_name"
  let ?q = "qualifying_prices now nfts cache ?m (actions_in_order activity (getMarketsSet cfg))"
  have main: "\<exists>cache'.
       getRecentSalesForModel now cfg activity nfts model_name cache sales =
         (Inr (if take RECENT_SALES_MAX ?q = [] then None else Some (take RECENT_SALES_MAX ?q)),
          cache',
          sales(toLowerCase ?m \<mapsto> \<lparr>sales_at = now, sales_prices = take RECENT_SALES_MAX ?q\<rparr>))"
    if name: "?m \<noteq> []"
      and miss: "sales (toLowerCase ?m) = None
        \<or> (\<exists>e. sales (toLowerCase ?m) = Some e \<and> \<not> now - sales_at e < RECENT_SALES_CACHE_TTL_MS)"
  proof -
    have stale: "\<not> (case sales (toLowerCase ?m) of None \<Rightarrow> False
                     | Some cached \<Rightarrow> now - sales_at cached < RECENT_SALES_CACHE_TTL_MS)"
      using miss by auto
    show ?thesis
      using getRecentSalesForModel_cases[of now cfg activity nfts model_name cache sales]
        name stale
      by simp
  qed
  have most: "(r = Inr None \<or> (\<exists>ps. r = Inr (Some ps) \<and> length ps \<le> RECENT_SALES_MAX))
        \<and> (\<forall>k e. sales1 k = Some e \<longrightarrow> length (sales_prices e) \<le> RECENT_SALES_MAX)"
    if "\<forall>k e. sales k = Some e \<longrightarrow> length (sales_prices e) \<le> RECENT_SALES_MAX"
      and "getRecentSalesForModel now cfg activity nfts model_name cache sales = (r, cache1, sales1)"
    using getRecentSalesForModel_at_most[OF that] .
  have max: "RECENT_SALES_MAX = 3" by (simp add: RECENT_SALES_MAX_def)
  have stop_actions: "getRecentSales_actions now nfts m acts prices cache = (Inr prices, cache)"
    if "length prices \<ge> RECENT_SALES_MAX"
    using that by (cases acts) simp_all
  have stop_events: "getRecentSales_events now nfts m evs prices cache = (Inr prices, cache)"
    if "length prices \<ge> RECENT_SALES_MAX"
    using that by (cases evs) simp_all
  have stop_markets:
    "getRecentSales_markets now activity nfts m accounts prices cache = (Inr prices, cache)"
    if "length prices \<ge> RECENT_SALES_MAX"
    using that by (cases accounts) simp_all
  show ?thesis
    using main most max stop_actions stop_events stop_markets
      qualifying_price_SomeD[of now nfts cache m act p]
    by blast
qed

theorem C8_recent_sales_first_three_witness:
  "trim '' plush pepe '' \<noteq> []
   \<and> fst (getRecentSalesForModel 1000 scenario_config scenario_activity scenario_nfts
         '' plush pepe '' (\<lambda>a. None) (\<lambda>a. None)) = Inr (Some [Fin 5, Fin 3, Fin 4])
   \<and> qualifying_prices 1000 scenario_nfts (\<lambda>a. None) (trim '' plush pepe '')
       (actions_in_order scenario_activity (getMarketsSet scenario_config))
     = [Fin 5, Fin 3, Fin 4, Fin 6, Fin 8]"
proof -
  have name: "trim '' plush pepe '' \<noteq> []"
    by code_simp
  have run: "fst (getRecentSalesForModel 1000 scenario_config scenario_activity scenario_nfts
         '' plush pepe '' (\<lambda>a. None) (\<lambda>a. None)) = Inr (Some [Fin 5, Fin 3, Fin 4])"
    by code_simp
  have all: "qualifying_prices 1000 scenario_nfts (\<lambda>a. None) (trim '' plush pepe '')
       (actions_in_order scenario_activity (getMarketsSet scenario_config))
     = [Fin 5, Fin 3, Fin 4, Fin 6, Fin 8]"
    by code_simp
  show ?thesis
    using name run all
      C8_recent_sales_first_three
        [where model_name = "'' plush pepe ''" and sales = "\<lambda>a. None" and now = 1000
           and cfg = scenario_config and activity = scenario_activity and nfts = scenario_nfts
           and cache = "\<lambda>a. None"]
    by blast
qed

end
